theory Spec2Isabelle
  imports Complex_Main "HOL-Library.Char_ord" "HOL-Library.List_Lexorder"
begin

section \<open>Python values, errors and dictionaries\<close>

text \<open>
  The history wrapper of ansibullbot (\<^verbatim>\<open>src/ansibullbot/historywrapper.py\<close>) works on
  events that are Python dicts with string keys. A dict is an association list here
  (Python dicts keep insertion order); a value is one of the flat Python values that occur
  in events. A finite number is an exact rational (every finite int and float is one, and
  Python compares them exactly); the floats that are not finite are \<open>NaN\<close> and the two
  infinities. A string is a list of code points below 256.

  A datetime \<open>DT w off\<close> is its wall-clock reading in microseconds together with its UTC
  offset: \<open>None\<close> for a naive datetime, the offset of a fixed-offset \<^verbatim>\<open>tzinfo\<close> (such as
  \<^verbatim>\<open>timezone.utc\<close>) otherwise. \<open>ZDT z w off\<close> is an aware datetime whose \<^verbatim>\<open>tzinfo\<close> is the
  zone object \<open>z\<close>, with the offset that zone has at that moment: one zone object gives
  different offsets at different times (daylight saving).
\<close>

datatype datetime =
    DT (wall: int) (utcoffset: "int option")
  | ZDT (zone: nat) (wall: int) (zone_offset: int)

datatype special = NaN | PosInf | NegInf

datatype pyval = PNone | PNum rat | PSpecial special | PStr string | PDate datetime

datatype error = KeyError | TypeError | AttributeError | IndexError | AssertionError
  | OSError | ParseError

type_synonym event = "(string \<times> pyval) list"

text \<open>\<^verbatim>\<open>d[k]\<close> raises KeyError on a missing key; \<^verbatim>\<open>d.get(k)\<close> is \<open>map_of d k\<close>.\<close>

definition getitem :: "event \<Rightarrow> string \<Rightarrow> error + pyval" where
  "getitem d k = (case map_of d k of None \<Rightarrow> Inl KeyError | Some v \<Rightarrow> Inr v)"

text \<open>Truthiness of a value (\<^verbatim>\<open>if v:\<close>, \<^verbatim>\<open>not v\<close>).\<close>

fun truthy :: "pyval \<Rightarrow> bool" where
  "truthy PNone = False"
| "truthy (PNum n) = (n \<noteq> 0)"
| "truthy (PSpecial f) = True"
| "truthy (PStr s) = (s \<noteq> [])"
| "truthy (PDate d) = True"

text \<open>
  \<^verbatim>\<open>a < b\<close>. Numbers compare with numbers: \<open>NaN\<close> is below nothing and nothing is below
  it, minus infinity is below every other number but \<open>NaN\<close>, plus infinity above.
  Strings compare with strings by code point. A naive datetime compares with a naive one
  by wall clock. Two aware datetimes compare by wall clock when they share one \<^verbatim>\<open>tzinfo\<close>
  object, and by instant (wall clock minus offset) otherwise; under a fixed offset the
  two readings agree. Every other pair raises TypeError.
\<close>

fun py_lt :: "pyval \<Rightarrow> pyval \<Rightarrow> error + bool" where
  "py_lt (PNum a) (PNum b) = Inr (a < b)"
| "py_lt (PNum a) (PSpecial g) = Inr (g = PosInf)"
| "py_lt (PSpecial f) (PNum b) = Inr (f = NegInf)"
| "py_lt (PSpecial f) (PSpecial g) = Inr (f = NegInf \<and> g = PosInf)"
| "py_lt (PStr a) (PStr b) = Inr (a < b)"
| "py_lt (PDate (DT a None)) (PDate (DT b None)) = Inr (a < b)"
| "py_lt (PDate (DT a (Some oa))) (PDate (DT b (Some ob))) = Inr (a - oa < b - ob)"
| "py_lt (PDate (ZDT z a oa)) (PDate (ZDT y b ob)) =
     Inr (if z = y then a < b else a - oa < b - ob)"
| "py_lt (PDate (ZDT z a oa)) (PDate (DT b (Some ob))) = Inr (a - oa < b - ob)"
| "py_lt (PDate (DT a (Some oa))) (PDate (ZDT y b ob)) = Inr (a - oa < b - ob)"
| "py_lt _ _ = Inl TypeError"


text \<open>\<^verbatim>\<open>isinstance(v, datetime.datetime)\<close> and \<^verbatim>\<open>d.replace(tzinfo=datetime.timezone.utc)\<close>.\<close>

fun is_datetime :: "pyval \<Rightarrow> bool" where
  "is_datetime (PDate d) = True"
| "is_datetime _ = False"

fun replace_utc :: "datetime \<Rightarrow> datetime" where
  "replace_utc (DT w off) = DT w (Some 0)"
| "replace_utc (ZDT z w off) = DT w (Some 0)"

fun is_aware :: "pyval \<Rightarrow> bool" where
  "is_aware (PDate (DT w (Some off))) = True"
| "is_aware (PDate (ZDT z w off)) = True"
| "is_aware _ = False"

text \<open>An aware datetime under a fixed-offset \<^verbatim>\<open>tzinfo\<close>, as \<^verbatim>\<open>replace(tzinfo=utc)\<close> gives.\<close>

fun is_fixed_aware :: "pyval \<Rightarrow> bool" where
  "is_fixed_aware (PDate (DT w (Some off))) = True"
| "is_fixed_aware _ = False"

section \<open>Python string operations\<close>

text \<open>The whitespace of \<^verbatim>\<open>str.strip()\<close> and \<^verbatim>\<open>str.split()\<close> among the code points below 256.\<close>

definition isspace :: "char \<Rightarrow> bool" where
  "isspace c = (let n = (of_char c :: nat) in
     (9 \<le> n \<and> n \<le> 13) \<or> (28 \<le> n \<and> n \<le> 32) \<or> n = 133 \<or> n = 160)"

definition strip :: "string \<Rightarrow> string" where
  "strip s = rev (dropWhile isspace (rev (dropWhile isspace s)))"

text \<open>\<^verbatim>\<open>s.split()\<close>: the maximal runs of non-whitespace characters.\<close>

fun tokens :: "string \<Rightarrow> string \<Rightarrow> string list" where
  "tokens cur [] = (if cur = [] then [] else [cur])"
| "tokens cur (c # cs) =
     (if isspace c then (if cur = [] then tokens [] cs else cur # tokens [] cs)
      else tokens (cur @ [c]) cs)"

definition split_ws :: "string \<Rightarrow> string list" where
  "split_ws s = tokens [] s"

text \<open>\<^verbatim>\<open>s.split('\n')\<close>: the pieces between newlines, empty ones kept.\<close>

fun split_on :: "char \<Rightarrow> string \<Rightarrow> string \<Rightarrow> string list" where
  "split_on sep cur [] = [cur]"
| "split_on sep cur (c # cs) =
     (if c = sep then cur # split_on sep [] cs else split_on sep (cur @ [c]) cs)"

definition split_lines :: "string \<Rightarrow> string list" where
  "split_lines s = split_on (CHR 0x0A) [] s"

text \<open>\<^verbatim>\<open>needle in hay\<close> on strings: a contiguous substring.\<close>

fun contains :: "string \<Rightarrow> string \<Rightarrow> bool" where
  "contains needle [] = (needle = [])"
| "contains needle (h # hs) = (take (length needle) (h # hs) = needle \<or> contains needle hs)"

text \<open>
  \<^verbatim>\<open>s.lower()\<close> on code points below 256: the letters A-Z (65-90) and the capital
  letters of Latin-1 (192-222 without the multiplication sign 215) move up by 32, which
  sets bit 5 of the code point (it is clear in both ranges).
\<close>

fun lower_char :: "char \<Rightarrow> char" where
  "lower_char (Char b0 b1 b2 b3 b4 b5 b6 b7) =
     (let n = (of_char (Char b0 b1 b2 b3 b4 b5 b6 b7) :: nat) in
      if (65 \<le> n \<and> n \<le> 90) \<or> (192 \<le> n \<and> n \<le> 222 \<and> n \<noteq> 215)
      then Char b0 b1 b2 b3 b4 True b6 b7 else Char b0 b1 b2 b3 b4 b5 b6 b7)"

definition lower :: "string \<Rightarrow> string" where
  "lower s = map lower_char s"

section \<open>The wrapper object, the cache snapshot and the store\<close>

text \<open>
  The state of a \<^verbatim>\<open>HistoryWrapper\<close> object: the labels and the update timestamp it was
  constructed with, and the in-memory timeline \<^verbatim>\<open>self.history\<close>.
\<close>

record HistoryWrapper =
  hw_labels :: "string list"
  hw_last_updated :: pyval
  hw_history :: "event list"

text \<open>
  What \<^verbatim>\<open>_load_cache\<close> can hand to \<^verbatim>\<open>validate_cache\<close>: \<^verbatim>\<open>None\<close>, an unpickled object
  that is not a dict, or a dict in which each of the three keys may be missing.
\<close>

record cachedata =
  c_version :: "pyval option"
  c_updated_at :: "pyval option"
  c_history :: "event list option"

datatype cache = CNone | CNotDict | CDict cachedata

text \<open>
  The storage: whether the cache directory exists, the content of \<^verbatim>\<open>history.pickle\<close>
  (a pickle of some object, or bytes that do not unpickle), and whether opening the file
  for writing succeeds.
\<close>

datatype blob = Pickle cache | Garbage

record store =
  cachedir_exists :: bool
  cachefile :: "blob option"
  write_ok :: bool

text \<open>\<^verbatim>\<open>SCHEMA_VERSION = 1.2\<close>: the double nearest to 1.2, as an exact rational.\<close>

definition SCHEMA_VERSION :: pyval where
  "SCHEMA_VERSION = PNum (5404319552844595 / 4503599627370496)"

section \<open>validate_cache\<close>

text \<open>A list comprehension \<^verbatim>\<open>[x for x in xs if p(x)]\<close> whose condition can raise.\<close>

fun filterE :: "('a \<Rightarrow> error + bool) \<Rightarrow> 'a list \<Rightarrow> error + 'a list" where
  "filterE p [] = Inr []"
| "filterE p (x # xs) =
     (case p x of
        Inl e \<Rightarrow> Inl e
      | Inr b \<Rightarrow> (case filterE p xs of
                   Inl e \<Rightarrow> Inl e
                 | Inr ys \<Rightarrow> Inr (if b then x # ys else ys)))"

text \<open>\<^verbatim>\<open>x['event'] == 'commented'\<close>\<close>

definition is_commented :: "event \<Rightarrow> error + bool" where
  "is_commented x =
     (case getitem x ''event'' of Inl e \<Rightarrow> Inl e | Inr k \<Rightarrow> Inr (k = PStr ''commented''))"

text \<open>\<^verbatim>\<open>x['event'] == 'labeled' and x['label'] == 'needs_info'\<close>\<close>

definition is_needs_info_labeled :: "event \<Rightarrow> error + bool" where
  "is_needs_info_labeled x =
     (case getitem x ''event'' of
        Inl e \<Rightarrow> Inl e
      | Inr k \<Rightarrow>
          if k = PStr ''labeled''
          then (case getitem x ''label'' of Inl e \<Rightarrow> Inl e | Inr l \<Rightarrow> Inr (l = PStr ''needs_info''))
          else Inr False)"

definition validate_cache :: "HistoryWrapper \<Rightarrow> cache \<Rightarrow> error + bool" where
  "validate_cache self cache =
     (case cache of
        CNone \<Rightarrow> Inr False
      | CNotDict \<Rightarrow> Inr False
      | CDict d \<Rightarrow>
          (case c_history d of
             None \<Rightarrow> Inr False
           | Some h \<Rightarrow>
          (case c_updated_at d of
             None \<Rightarrow> Inr False
           | Some u \<Rightarrow>
          (case c_version d of
             None \<Rightarrow> Inr False
           | Some v \<Rightarrow>
          if \<not> truthy v then Inr False
          else
          (case py_lt v SCHEMA_VERSION of
             Inl e \<Rightarrow> Inl e
           | Inr behind \<Rightarrow>
          if behind then Inr False
          else
          (case py_lt u (hw_last_updated self) of
             Inl e \<Rightarrow> Inl e
           | Inr older \<Rightarrow>
          if older then Inr False
          else
          (case filterE is_commented h of
             Inl e \<Rightarrow> Inl e
           | Inr cs \<Rightarrow>
          if length h < length cs + length (hw_labels self) then Inr False
          else if ''needs_info'' \<in> set (hw_labels self)
          then (case filterE is_needs_info_labeled h of
                  Inl e \<Rightarrow> Inl e
                | Inr le \<Rightarrow> if le = [] then Inr False else Inr True)
          else Inr True)))))))"

text \<open>
  The five rules as the specification words them, on the same data: the version is
  non-zero and \<^verbatim>\<open>>=\<close> the schema version, the snapshot's timestamp is \<^verbatim>\<open>>=\<close> the item's.
\<close>

definition kind_is :: "string \<Rightarrow> event \<Rightarrow> bool" where
  "kind_is k x = (map_of x ''event'' = Some (PStr k))"


text \<open>
  The five rules as the code tests them: the version is truthy and not \<^verbatim>\<open><\<close> the schema
  version, the snapshot's timestamp is not \<^verbatim>\<open><\<close> the item's.
\<close>

definition rules_hold :: "string list \<Rightarrow> pyval \<Rightarrow> cache \<Rightarrow> bool" where
  "rules_hold labels last_updated cache =
     (case cache of
        CNone \<Rightarrow> False
      | CNotDict \<Rightarrow> False
      | CDict d \<Rightarrow>
          (case (c_history d, c_updated_at d) of
             (Some h, Some u) \<Rightarrow>
               (case c_version d of
                  None \<Rightarrow> False
                | Some v \<Rightarrow> truthy v \<and> py_lt v SCHEMA_VERSION = Inr False)
               \<and> py_lt u last_updated = Inr False
               \<and> length h \<ge> length (filter (kind_is ''commented'') h) + length labels
               \<and> (''needs_info'' \<in> set labels \<longrightarrow>
                    (\<exists>x \<in> set h. kind_is ''labeled'' x
                                 \<and> map_of x ''label'' = Some (PStr ''needs_info'')))
           | _ \<Rightarrow> False))"

text \<open>
  What rules 4 and 5 read: the kind of every event and, when \<^verbatim>\<open>needs_info\<close> is a current
  label, the label of every \<^verbatim>\<open>labeled\<close> event.
\<close>

definition history_readable :: "string list \<Rightarrow> cache \<Rightarrow> bool" where
  "history_readable labels cache =
     (case cache of
        CDict d \<Rightarrow>
          (case c_history d of
             None \<Rightarrow> True
           | Some h \<Rightarrow>
               list_all (\<lambda>x. map_of x ''event'' \<noteq> None) h
               \<and> (''needs_info'' \<in> set labels \<longrightarrow>
                    list_all (\<lambda>x. kind_is ''labeled'' x \<longrightarrow> map_of x ''label'' \<noteq> None) h))
      | _ \<Rightarrow> True)"

text \<open>
  A snapshot that fails rule 1 or rule 2 (no dict, a key missing, a version that is
  missing, falsy or below the schema version), and one that passes them and is older than
  the item.
\<close>

definition rejected_early :: "cache \<Rightarrow> bool" where
  "rejected_early cache =
     (case cache of
        CDict d \<Rightarrow>
          c_history d = None \<or> c_updated_at d = None
          \<or> (case c_version d of
                None \<Rightarrow> True
              | Some v \<Rightarrow> (if truthy v then py_lt v SCHEMA_VERSION = Inr True else True))
      | _ \<Rightarrow> True)"

definition older_than_item :: "pyval \<Rightarrow> cache \<Rightarrow> bool" where
  "older_than_item last_updated cache =
     (case cache of
        CDict d \<Rightarrow>
          (case (c_history d, c_updated_at d, c_version d) of
             (Some h, Some u, Some v) \<Rightarrow>
               truthy v \<and> py_lt v SCHEMA_VERSION = Inr False
               \<and> py_lt u last_updated = Inr True
           | _ \<Rightarrow> False)
      | _ \<Rightarrow> False)"

text \<open>
  The data model of the snapshot: the version, when present, is a number or \<^verbatim>\<open>None\<close>;
  its timestamp compares with the item's; every event has its kind, and a \<^verbatim>\<open>labeled\<close>
  event has its label.
\<close>

definition comparable :: "pyval \<Rightarrow> pyval \<Rightarrow> bool" where
  "comparable a b = (case py_lt a b of Inl e \<Rightarrow> False | Inr r \<Rightarrow> True)"

definition event_shaped :: "event \<Rightarrow> bool" where
  "event_shaped x =
     (case map_of x ''event'' of
        None \<Rightarrow> False
      | Some k \<Rightarrow> k = PStr ''labeled'' \<longrightarrow> map_of x ''label'' \<noteq> None)"

fun is_number_or_none :: "pyval \<Rightarrow> bool" where
  "is_number_or_none PNone = True"
| "is_number_or_none (PNum n) = True"
| "is_number_or_none (PSpecial f) = True"
| "is_number_or_none _ = False"

definition snapshot_shaped :: "pyval \<Rightarrow> cache \<Rightarrow> bool" where
  "snapshot_shaped last_updated cache =
     (case cache of
        CDict d \<Rightarrow>
          (case c_version d of None \<Rightarrow> True | Some v \<Rightarrow> is_number_or_none v)
          \<and> (case c_updated_at d of None \<Rightarrow> True | Some u \<Rightarrow> comparable u last_updated)
          \<and> (case c_history d of None \<Rightarrow> True | Some h \<Rightarrow> list_all event_shaped h)
      | _ \<Rightarrow> True)"

section \<open>Loading and dumping the cache\<close>

text \<open>
  \<^verbatim>\<open>_load_cache\<close> creates the cache directory when it is missing, returns \<^verbatim>\<open>None\<close> when
  there is no file or the file does not unpickle, and the unpickled object otherwise.
\<close>

definition load_cache :: "store \<Rightarrow> cache \<times> store" where
  "load_cache st =
     (let st1 = st\<lparr>cachedir_exists := True\<rparr> in
      case cachefile st of
        None \<Rightarrow> (CNone, st1)
      | Some Garbage \<Rightarrow> (CNone, st1)
      | Some (Pickle cachedata) \<Rightarrow> (cachedata, st1))"

text \<open>
  \<^verbatim>\<open>any(x for x in self.history if not isinstance(x['created_at'], datetime.datetime))\<close>:
  the generator yields the events whose \<^verbatim>\<open>created_at\<close> is not a datetime, and \<^verbatim>\<open>any\<close> stops
  at the first one that is truthy (a dict is truthy when it is not empty).
\<close>

fun any_non_datetime :: "event list \<Rightarrow> error + bool" where
  "any_non_datetime [] = Inr False"
| "any_non_datetime (x # xs) =
     (case getitem x ''created_at'' of
        Inl e \<Rightarrow> Inl e
      | Inr c \<Rightarrow> if \<not> is_datetime c \<and> x \<noteq> [] then Inr True else any_non_datetime xs)"

text \<open>
  \<^verbatim>\<open>_dump_cache\<close> returns the error it raises, if any, and the store it leaves. The
  assertion fails before the store is touched; a failing write (\<open>write_ok\<close> false) is the
  \<^verbatim>\<open>open\<close> for writing failing, after the directory has been created.
\<close>

definition dump_cache :: "HistoryWrapper \<Rightarrow> store \<Rightarrow> error option \<times> store" where
  "dump_cache self st =
     (case any_non_datetime (hw_history self) of
        Inl e \<Rightarrow> (Some e, st)
      | Inr bad \<Rightarrow>
          if bad then (Some AssertionError, st)
          else
            (let st1 = st\<lparr>cachedir_exists := True\<rparr>;
                 cachedata = CDict \<lparr>c_version = Some SCHEMA_VERSION,
                                    c_updated_at = Some (hw_last_updated self),
                                    c_history = Some (hw_history self)\<rparr>
             in if write_ok st1 then (None, st1\<lparr>cachefile := Some (Pickle cachedata)\<rparr>)
                else (Some OSError, st1)))"

section \<open>Sorting the timeline\<close>

text \<open>
  \<^verbatim>\<open>sorted(self.history, key=itemgetter('created_at'))\<close> computes the key of every event
  first (KeyError on an event without \<^verbatim>\<open>created_at\<close>), then sorts the events by their keys
  with \<^verbatim>\<open><\<close> alone, stably. A comparison sort that finishes has compared across any two
  classes of keys that do not compare with each other, so the sort raises TypeError exactly
  when two keys at different positions do not compare. When all keys compare and
  \<^verbatim>\<open><\<close> orders them consistently (as it does on numbers, on strings, on naive datetimes and
  on aware datetimes of fixed offset), every stable sort gives the same list; it is
  computed by insertion here. Among zone datetimes \<^verbatim>\<open><\<close> need not be transitive, and what
  the library's sort returns then depends on its algorithm: the properties below do not
  speak of such keys.
\<close>

fun created_keys :: "event list \<Rightarrow> error + pyval list" where
  "created_keys [] = Inr []"
| "created_keys (x # xs) =
     (case getitem x ''created_at'' of
        Inl e \<Rightarrow> Inl e
      | Inr k \<Rightarrow> (case created_keys xs of Inl e \<Rightarrow> Inl e | Inr ks \<Rightarrow> Inr (k # ks)))"

fun pairwise_comparable :: "pyval list \<Rightarrow> bool" where
  "pairwise_comparable [] = True"
| "pairwise_comparable (k # ks) =
     (list_all (\<lambda>k'. comparable k k' \<and> comparable k' k) ks \<and> pairwise_comparable ks)"

fun insort_lt :: "pyval \<times> event \<Rightarrow> (pyval \<times> event) list \<Rightarrow> (pyval \<times> event) list" where
  "insort_lt x [] = [x]"
| "insort_lt x (y # ys) =
     (if py_lt (fst y) (fst x) = Inr True then y # insort_lt x ys else x # y # ys)"

definition stable_sort_lt :: "(pyval \<times> event) list \<Rightarrow> (pyval \<times> event) list" where
  "stable_sort_lt ps = foldr insort_lt ps []"

definition py_sorted :: "event list \<Rightarrow> error + event list" where
  "py_sorted h =
     (case created_keys h of
        Inl e \<Rightarrow> Inl e
      | Inr ks \<Rightarrow>
          if pairwise_comparable ks then Inr (map snd (stable_sort_lt (zip ks h)))
          else Inl TypeError)"

section \<open>The constructor\<close>

text \<open>\<^verbatim>\<open>cache['history']\<close> on a snapshot that passed validation.\<close>

definition cache_history :: "cache \<Rightarrow> error + event list" where
  "cache_history cache =
     (case cache of
        CDict d \<Rightarrow> (case c_history d of None \<Rightarrow> Inl KeyError | Some h \<Rightarrow> Inr h)
      | _ \<Rightarrow> Inl TypeError)"

text \<open>
  \<^verbatim>\<open>self.history = sorted(self.history, key=itemgetter('created_at'))\<close>: when the sort
  raises, \<^verbatim>\<open>self.history\<close> keeps the list it had.
\<close>

definition sort_history :: "HistoryWrapper \<Rightarrow> error option \<times> HistoryWrapper" where
  "sort_history self =
     (case py_sorted (hw_history self) of
        Inl e \<Rightarrow> (Some e, self)
      | Inr h \<Rightarrow> (None, self\<lparr>hw_history := h\<rparr>))"



section \<open>merge_commits and merge_reviews\<close>







text \<open>
  A raw review as \<^verbatim>\<open>merge_reviews\<close> reads it: a dict in which every key may be missing.
  \<^verbatim>\<open>review.get('user')\<close> is \<^verbatim>\<open>None\<close> when the key is missing or its value is \<^verbatim>\<open>None\<close> (a
  deleted account), else a user record, which may or may not have a \<^verbatim>\<open>login\<close>.
\<close>

datatype user_field = NoUser | UserRecord "string option"

record raw_review =
  r_user :: user_field
  r_state :: "string option"
  r_id :: "pyval option"
  r_submitted_at :: "string option"
  r_commit_id :: "pyval option"
  r_body :: "pyval option"

text \<open>The \<^verbatim>\<open>if/elif\<close> chain over \<^verbatim>\<open>review['state']\<close>.\<close>

datatype state_branch = Kind string | Pending | Unknown

definition review_state_branch :: "string \<Rightarrow> state_branch" where
  "review_state_branch s =
     (if s = ''COMMENTED'' then Kind ''review_comment''
      else if s = ''CHANGES_REQUESTED'' then Kind ''review_changes_requested''
      else if s = ''APPROVED'' then Kind ''review_approved''
      else if s = ''DISMISSED'' then Kind ''review_dismissed''
      else if s = ''PENDING'' then Pending
      else Unknown)"

definition review_event ::
  "string \<Rightarrow> pyval \<Rightarrow> string \<Rightarrow> datetime \<Rightarrow> raw_review \<Rightarrow> event" where
  "review_event kind rid login submitted review =
     [(''event'', PStr kind),
      (''id'', rid),
      (''actor'', PStr login),
      (''created_at'', PDate (replace_utc submitted)),
      (''commit_id'', (case r_commit_id review of None \<Rightarrow> PNone | Some c \<Rightarrow> c)),
      (''body'', (case r_body review of None \<Rightarrow> PNone | Some b \<Rightarrow> b))]"

text \<open>
  The loop of \<^verbatim>\<open>merge_reviews\<close>. \<open>strip_time_safely\<close> is the timestamp parser of
  \<^verbatim>\<open>ansibullbot.utils.timetools\<close>, a parameter here; it may raise. The loop returns the
  error it raises, if any, the list \<^verbatim>\<open>self.history\<close> as it is then (the events appended so
  far), and what \<^verbatim>\<open>logging.error\<close> was given. The subscripts \<^verbatim>\<open>review['state']\<close>,
  \<^verbatim>\<open>review['id']\<close>, \<^verbatim>\<open>review['user']['login']\<close> and \<^verbatim>\<open>review['submitted_at']\<close> raise
  KeyError on a missing key, in this order.
\<close>

fun merge_reviews_loop ::
  "(string \<Rightarrow> error + datetime) \<Rightarrow> event list \<Rightarrow> string list \<Rightarrow> raw_review list
     \<Rightarrow> error option \<times> event list \<times> string list" where
  "merge_reviews_loop strip_time_safely h logged [] = (None, h, logged)"
| "merge_reviews_loop strip_time_safely h logged (review # rest) =
     (case r_user review of
        NoUser \<Rightarrow> merge_reviews_loop strip_time_safely h logged rest
      | UserRecord login \<Rightarrow>
          (case r_state review of
             None \<Rightarrow> (Some KeyError, h, logged)
           | Some state \<Rightarrow>
               (case review_state_branch state of
                  Pending \<Rightarrow> merge_reviews_loop strip_time_safely h logged rest
                | Unknown \<Rightarrow>
                    merge_reviews_loop strip_time_safely h
                      (logged @ [''unknown review state '' @ state]) rest
                | Kind kind \<Rightarrow>
                    (case r_id review of
                       None \<Rightarrow> (Some KeyError, h, logged)
                     | Some rid \<Rightarrow>
                    (case login of
                       None \<Rightarrow> (Some KeyError, h, logged)
                     | Some actor \<Rightarrow>
                    (case r_submitted_at review of
                       None \<Rightarrow> (Some KeyError, h, logged)
                     | Some submitted_at \<Rightarrow>
                    (case strip_time_safely submitted_at of
                       Inl e \<Rightarrow> (Some e, h, logged)
                     | Inr submitted \<Rightarrow>
                         merge_reviews_loop strip_time_safely
                           (h @ [review_event kind rid actor submitted review]) logged
                           rest)))))))"

text \<open>
  \<open>merge_reviews\<close> returns the error it raises, if any, the object as it is then, and
  the log. When the loop raises, the events of the reviews before are appended and the
  timeline is not sorted again; when the final sort raises, all events are appended.
\<close>

definition merge_reviews ::
  "(string \<Rightarrow> error + datetime) \<Rightarrow> raw_review list \<Rightarrow> HistoryWrapper
     \<Rightarrow> error option \<times> HistoryWrapper \<times> string list" where
  "merge_reviews strip_time_safely reviews self =
     (case merge_reviews_loop strip_time_safely (hw_history self) [] reviews of
        (Some e, h, logged) \<Rightarrow> (Some e, self\<lparr>hw_history := h\<rparr>, logged)
      | (None, h, logged) \<Rightarrow>
          (case sort_history (self\<lparr>hw_history := h\<rparr>) of
             (e, self') \<Rightarrow> (e, self', logged)))"

section \<open>Scanning the timeline by actor\<close>

text \<open>
  An argument that is either one Python value or a list of values. A string is a
  \<^verbatim>\<open>collections.abc.Sequence\<close>, as a list is; \<^verbatim>\<open>None\<close>, numbers and datetimes are not.
\<close>

datatype pyarg = Val pyval | Seq "pyval list"

fun is_sequence :: "pyarg \<Rightarrow> bool" where
  "is_sequence (Seq vs) = True"
| "is_sequence (Val (PStr s)) = True"
| "is_sequence (Val v) = False"

text \<open>\<^verbatim>\<open>x in container\<close>: membership in a list, substring in a string, TypeError otherwise.\<close>

fun py_in :: "pyval \<Rightarrow> pyarg \<Rightarrow> error + bool" where
  "py_in x (Seq vs) = Inr (x \<in> set vs)"
| "py_in (PStr x) (Val (PStr s)) = Inr (contains x s)"
| "py_in x (Val v) = Inl TypeError"

text \<open>
  \<^verbatim>\<open>
  if actor is not None and not isinstance(actor, Sequence):
      actor = [actor]
  \<close>
\<close>

definition wrap_actor :: "pyarg \<Rightarrow> pyarg" where
  "wrap_actor actor =
     (if actor \<noteq> Val PNone \<and> \<not> is_sequence actor
      then (case actor of Val v \<Rightarrow> Seq [v] | Seq vs \<Rightarrow> Seq vs)
      else actor)"

text \<open>
  \<^verbatim>\<open>
  for event in self.history:
      if event['event'] == eventname or not eventname:
          if actor is None:
              matching_events.append(event)
          elif event['actor'] in actor:
              matching_events.append(event)
          if len(matching_events) == maxcount:
              break
  return matching_events
  \<close>
\<close>

fun find_events_loop ::
  "pyval \<Rightarrow> pyarg \<Rightarrow> int \<Rightarrow> event list \<Rightarrow> event list \<Rightarrow> error + event list" where
  "find_events_loop eventname actor maxcount matching_events [] = Inr matching_events"
| "find_events_loop eventname actor maxcount matching_events (event # rest) =
     (case getitem event ''event'' of
        Inl e \<Rightarrow> Inl e
      | Inr k \<Rightarrow>
          if k = eventname \<or> \<not> truthy eventname then
            (case (if actor = Val PNone then Inr (matching_events @ [event])
                   else (case getitem event ''actor'' of
                           Inl e \<Rightarrow> Inl e
                         | Inr a \<Rightarrow>
                             (case py_in a actor of
                                Inl e \<Rightarrow> Inl e
                              | Inr found \<Rightarrow>
                                  Inr (if found then matching_events @ [event]
                                       else matching_events)))) of
               Inl e \<Rightarrow> Inl e
             | Inr matching_events' \<Rightarrow>
                 if int (length matching_events') = maxcount then Inr matching_events'
                 else find_events_loop eventname actor maxcount matching_events' rest)
          else find_events_loop eventname actor maxcount matching_events rest)"

definition find_events_by_actor ::
  "pyval \<Rightarrow> pyarg \<Rightarrow> int \<Rightarrow> HistoryWrapper \<Rightarrow> error + event list" where
  "find_events_by_actor eventname actor maxcount self =
     find_events_loop eventname (wrap_actor actor) maxcount [] (hw_history self)"

text \<open>\<^verbatim>\<open>[x['body'] for x in matching_events]\<close>\<close>

fun event_bodies :: "event list \<Rightarrow> error + pyval list" where
  "event_bodies [] = Inr []"
| "event_bodies (x # xs) =
     (case getitem x ''body'' of
        Inl e \<Rightarrow> Inl e
      | Inr b \<Rightarrow> (case event_bodies xs of Inl e \<Rightarrow> Inl e | Inr bs \<Rightarrow> Inr (b # bs)))"

definition get_user_comments :: "pyarg \<Rightarrow> HistoryWrapper \<Rightarrow> error + pyval list" where
  "get_user_comments username self =
     (case find_events_by_actor (PStr ''commented'') username 999 self of
        Inl e \<Rightarrow> Inl e
      | Inr matching_events \<Rightarrow> event_bodies matching_events)"

text \<open>
  \<^verbatim>\<open>[x['body'] for x in matching_events if searchterm in x['body'].lower()]\<close>;
  \<^verbatim>\<open>.lower()\<close> on a body that is not a string raises AttributeError.
\<close>

fun search_bodies :: "string \<Rightarrow> event list \<Rightarrow> error + pyval list" where
  "search_bodies searchterm [] = Inr []"
| "search_bodies searchterm (x # xs) =
     (case getitem x ''body'' of
        Inl e \<Rightarrow> Inl e
      | Inr (PStr b) \<Rightarrow>
          (case search_bodies searchterm xs of
             Inl e \<Rightarrow> Inl e
           | Inr bs \<Rightarrow> Inr (if contains searchterm (lower b) then PStr b # bs else bs))
      | Inr _ \<Rightarrow> Inl AttributeError)"

definition search_user_comments :: "pyarg \<Rightarrow> string \<Rightarrow> HistoryWrapper \<Rightarrow> error + pyval list" where
  "search_user_comments username searchterm self =
     (case find_events_by_actor (PStr ''commented'') username 999 self of
        Inl e \<Rightarrow> Inl e
      | Inr matching_events \<Rightarrow> search_bodies searchterm matching_events)"

definition was_assigned :: "pyarg \<Rightarrow> HistoryWrapper \<Rightarrow> error + bool" where
  "was_assigned username self =
     (case find_events_by_actor (PStr ''assigned'') username 1 self of
        Inl e \<Rightarrow> Inl e
      | Inr matching_events \<Rightarrow> Inr (length matching_events > 0))"

definition was_subscribed :: "pyarg \<Rightarrow> HistoryWrapper \<Rightarrow> error + bool" where
  "was_subscribed username self =
     (case find_events_by_actor (PStr ''subscribed'') username 1 self of
        Inl e \<Rightarrow> Inl e
      | Inr matching_events \<Rightarrow> Inr (length matching_events > 0))"

section \<open>last_comment\<close>

text \<open>
  \<^verbatim>\<open>
  last_comment = None
  for event in reversed(self.history):
      if event['event'] == 'commented':
          if type(username) == list:
              if event['actor'] in username:
                  last_comment = event['body']
          elif event['actor'] == username:
              last_comment = event['body']
      if last_comment:
          break
  return last_comment
  \<close>
\<close>

fun actor_is :: "pyarg \<Rightarrow> pyval \<Rightarrow> bool" where
  "actor_is (Seq vs) a = (a \<in> set vs)"
| "actor_is (Val v) a = (a = v)"

fun last_comment_loop :: "pyarg \<Rightarrow> pyval \<Rightarrow> event list \<Rightarrow> error + pyval" where
  "last_comment_loop username last_comment [] = Inr last_comment"
| "last_comment_loop username last_comment (event # rest) =
     (case getitem event ''event'' of
        Inl e \<Rightarrow> Inl e
      | Inr k \<Rightarrow>
          (case (if k = PStr ''commented''
                 then (case getitem event ''actor'' of
                         Inl e \<Rightarrow> Inl e
                       | Inr a \<Rightarrow>
                           if actor_is username a then getitem event ''body''
                           else Inr last_comment)
                 else Inr last_comment) of
             Inl e \<Rightarrow> Inl e
           | Inr last_comment' \<Rightarrow>
               if truthy last_comment' then Inr last_comment'
               else last_comment_loop username last_comment' rest))"

definition last_comment :: "pyarg \<Rightarrow> HistoryWrapper \<Rightarrow> error + pyval" where
  "last_comment username self = last_comment_loop username PNone (rev (hw_history self))"

section \<open>label_last_applied\<close>

text \<open>
  \<^verbatim>\<open>
  last_date = None
  for event in reversed(self.history):
      if event['event'] == 'labeled':
          if event['label'] == label:
              last_date = event['created_at']
              break
  return last_date
  \<close>
  The reverse scan next to \<open>last_comment\<close>: it leaves the loop on the match itself.
\<close>

fun label_last_applied_loop :: "pyval \<Rightarrow> event list \<Rightarrow> error + pyval" where
  "label_last_applied_loop label [] = Inr PNone"
| "label_last_applied_loop label (event # rest) =
     (case getitem event ''event'' of
        Inl e \<Rightarrow> Inl e
      | Inr k \<Rightarrow>
          if k = PStr ''labeled'' then
            (case getitem event ''label'' of
               Inl e \<Rightarrow> Inl e
             | Inr l \<Rightarrow>
                 if l = label then getitem event ''created_at''
                 else label_last_applied_loop label rest)
          else label_last_applied_loop label rest)"

definition label_last_applied :: "pyval \<Rightarrow> HistoryWrapper \<Rightarrow> error + pyval" where
  "label_last_applied label self = label_last_applied_loop label (rev (hw_history self))"

section \<open>get_boilerplate_comments\<close>

text \<open>
  An entry of the result: the bare boilerplate name (\<^verbatim>\<open>dates\<close> and \<^verbatim>\<open>content\<close> both
  false) or the list \<^verbatim>\<open>bpc\<close>.
\<close>

datatype boilerplate = BpName string | BpRow "pyval list"

definition marker :: string where
  "marker = ''boilerplate:''"

text \<open>
  \<^verbatim>\<open>
  lines = [x for x in comment['body'].split('\n') if x.strip() and 'boilerplate:' in x]
  bp = lines[0].split()[2]
  \<close>
  Both subscripts raise IndexError out of range.
\<close>

definition marker_lines :: "string \<Rightarrow> string list" where
  "marker_lines body = filter (\<lambda>x. strip x \<noteq> [] \<and> contains marker x) (split_lines body)"

definition boilerplate_name :: "string \<Rightarrow> error + string" where
  "boilerplate_name body =
     (case marker_lines body of
        [] \<Rightarrow> Inl IndexError
      | line # others \<Rightarrow>
          if 2 < length (split_ws line) then Inr (split_ws line ! 2) else Inl IndexError)"

definition boilerplate_entry :: "bool \<Rightarrow> bool \<Rightarrow> event \<Rightarrow> pyval \<Rightarrow> string \<Rightarrow> error + boilerplate" where
  "boilerplate_entry dates content comment body bp =
     (if dates \<or> content then
        (case (if dates
               then (case getitem comment ''created_at'' of
                       Inl e \<Rightarrow> Inl e
                     | Inr d \<Rightarrow> Inr [d])
               else Inr []) of
           Inl e \<Rightarrow> Inl e
         | Inr bpc \<Rightarrow> Inr (BpRow (bpc @ [PStr bp] @ (if content then [body] else []))))
      else Inr (BpName bp))"

fun boilerplate_loop :: "bool \<Rightarrow> bool \<Rightarrow> event list \<Rightarrow> error + boilerplate list" where
  "boilerplate_loop dates content [] = Inr []"
| "boilerplate_loop dates content (comment # rest) =
     (case map_of comment ''body'' of
        None \<Rightarrow> boilerplate_loop dates content rest
      | Some body \<Rightarrow>
          if \<not> truthy body then boilerplate_loop dates content rest
          else
            (case body of
               PStr b \<Rightarrow>
                 if contains marker b then
                   (case boilerplate_name b of
                      Inl e \<Rightarrow> Inl e
                    | Inr bp \<Rightarrow>
                        (case boilerplate_entry dates content comment body bp of
                           Inl e \<Rightarrow> Inl e
                         | Inr entry \<Rightarrow>
                             (case boilerplate_loop dates content rest of
                                Inl e \<Rightarrow> Inl e
                              | Inr entries \<Rightarrow> Inr (entry # entries))))
                 else boilerplate_loop dates content rest
             | _ \<Rightarrow> Inl TypeError))"

text \<open>
  \<open>bot_names\<close> is \<^verbatim>\<open>C.DEFAULT_BOT_NAMES\<close>, the configured list of bot logins, a
  parameter here.
\<close>

definition get_boilerplate_comments ::
  "string list \<Rightarrow> bool \<Rightarrow> bool \<Rightarrow> HistoryWrapper \<Rightarrow> error + boilerplate list" where
  "get_boilerplate_comments bot_names dates content self =
     (case find_events_by_actor (PStr ''commented'') (Seq (map PStr bot_names)) 999 self of
        Inl e \<Rightarrow> Inl e
      | Inr comments \<Rightarrow> boilerplate_loop dates content comments)"

section \<open>command_status\<close>

text \<open>
  \<^verbatim>\<open>
  status = None
  for event in self.history:
      if 'body' not in event:
          continue
      if event['body'].strip() == command:
          status = True
      elif event['body'].strip() == '!' + command:
          status = False
  return status
  \<close>
  \<^verbatim>\<open>.strip()\<close> on a body that is not a string raises AttributeError.
\<close>

fun command_status_loop :: "string \<Rightarrow> bool option \<Rightarrow> event list \<Rightarrow> error + bool option" where
  "command_status_loop command status [] = Inr status"
| "command_status_loop command status (event # rest) =
     (case map_of event ''body'' of
        None \<Rightarrow> command_status_loop command status rest
      | Some (PStr b) \<Rightarrow>
          if strip b = command then command_status_loop command (Some True) rest
          else if strip b = CHR ''!'' # command
          then command_status_loop command (Some False) rest
          else command_status_loop command status rest
      | Some _ \<Rightarrow> Inl AttributeError)"

definition command_status :: "string \<Rightarrow> HistoryWrapper \<Rightarrow> error + bool option" where
  "command_status command self = command_status_loop command None (hw_history self)"

section \<open>Vocabulary of the properties\<close>

text \<open>The text bodies of a list of events, in order.\<close>

fun bodies :: "event list \<Rightarrow> string list" where
  "bodies [] = []"
| "bodies (e # es) =
     (case map_of e ''body'' of Some (PStr b) \<Rightarrow> b # bodies es | _ \<Rightarrow> bodies es)"

text \<open>Every body that is present is a string.\<close>

definition text_body :: "event \<Rightarrow> bool" where
  "text_body e =
     (case map_of e ''body'' of
        None \<Rightarrow> True
      | Some v \<Rightarrow> (case v of PStr b \<Rightarrow> True | _ \<Rightarrow> False))"

text \<open>
  The command status as the specification words it: the last body that exactly equals
  the command or its negation decides.
\<close>

definition spec_command_status :: "string \<Rightarrow> event list \<Rightarrow> bool option" where
  "spec_command_status command h =
     (case List.find (\<lambda>b. b = command \<or> b = CHR ''!'' # command) (rev (bodies h)) of
        None \<Rightarrow> None
      | Some b \<Rightarrow> Some (b = command))"

text \<open>The same scan on the bodies stripped of surrounding whitespace.\<close>

definition stripped_command_status :: "string \<Rightarrow> event list \<Rightarrow> bool option" where
  "stripped_command_status command h =
     (case List.find (\<lambda>b. strip b = command \<or> strip b = CHR ''!'' # command) (rev (bodies h)) of
        None \<Rightarrow> None
      | Some b \<Rightarrow> Some (strip b = command))"

text \<open>An event whose \<^verbatim>\<open>created_at\<close> is present, is a datetime, is timezone-aware.\<close>

definition has_created_at :: "event \<Rightarrow> bool" where
  "has_created_at e = (map_of e ''created_at'' \<noteq> None)"

definition datetime_created_at :: "event \<Rightarrow> bool" where
  "datetime_created_at e =
     (case map_of e ''created_at'' of None \<Rightarrow> False | Some c \<Rightarrow> is_datetime c)"

definition aware_created_at :: "event \<Rightarrow> bool" where
  "aware_created_at e =
     (case map_of e ''created_at'' of None \<Rightarrow> False | Some c \<Rightarrow> is_aware c)"

text \<open>The snapshot \<^verbatim>\<open>_dump_cache\<close> writes.\<close>

definition snapshot_of :: "HistoryWrapper \<Rightarrow> cache" where
  "snapshot_of self =
     CDict \<lparr>c_version = Some SCHEMA_VERSION,
            c_updated_at = Some (hw_last_updated self),
            c_history = Some (hw_history self)\<rparr>"

text \<open>Rules 4 and 5 of the validation, on the in-memory timeline.\<close>

definition completeness_floor :: "HistoryWrapper \<Rightarrow> bool" where
  "completeness_floor self =
     (length (hw_history self)
        \<ge> length (filter (kind_is ''commented'') (hw_history self)) + length (hw_labels self))"

definition needs_info_guard :: "HistoryWrapper \<Rightarrow> bool" where
  "needs_info_guard self =
     (''needs_info'' \<in> set (hw_labels self) \<longrightarrow>
        (\<exists>x \<in> set (hw_history self).
            kind_is ''labeled'' x \<and> map_of x ''label'' = Some (PStr ''needs_info'')))"

text \<open>
  The events of one kind by one of the identities \<open>us\<close>, as the scan selects them, and
  the data model the scan relies on: every event has its kind, and an event of the kind
  asked for has its actor.
\<close>

definition actor_among :: "pyval list \<Rightarrow> event \<Rightarrow> bool" where
  "actor_among us e = (case map_of e ''actor'' of None \<Rightarrow> False | Some a \<Rightarrow> a \<in> set us)"

definition actor_shaped :: "string \<Rightarrow> event \<Rightarrow> bool" where
  "actor_shaped k e =
     (case map_of e ''event'' of
        None \<Rightarrow> False
      | Some v \<Rightarrow> v = PStr k \<longrightarrow> map_of e ''actor'' \<noteq> None)"

text \<open>A comment has its actor and a body; in \<open>comment_shaped\<close> the body is text.\<close>

definition comment_keys :: "event \<Rightarrow> bool" where
  "comment_keys e =
     (case map_of e ''event'' of
        None \<Rightarrow> False
      | Some v \<Rightarrow> v = PStr ''commented'' \<longrightarrow>
                    map_of e ''actor'' \<noteq> None \<and> map_of e ''body'' \<noteq> None)"

definition comment_shaped :: "event \<Rightarrow> bool" where
  "comment_shaped e =
     (case map_of e ''event'' of
        None \<Rightarrow> False
      | Some v \<Rightarrow> v = PStr ''commented'' \<longrightarrow>
                    map_of e ''actor'' \<noteq> None
                    \<and> (case map_of e ''body'' of Some (PStr b) \<Rightarrow> True | _ \<Rightarrow> False))"

text \<open>
  The search as the specification words it (the term matched without regard to the case
  of either side), and as the code has it (the term as given, in the lowered body, among
  the first 999 comments of the users).
\<close>

definition spec_search_user_comments :: "pyval list \<Rightarrow> string \<Rightarrow> event list \<Rightarrow> pyval list" where
  "spec_search_user_comments us searchterm h =
     map PStr (filter (\<lambda>b. contains (lower searchterm) (lower b))
       (bodies (filter (\<lambda>e. kind_is ''commented'' e \<and> actor_among us e) h)))"

definition lowered_body_search :: "pyval list \<Rightarrow> string \<Rightarrow> event list \<Rightarrow> pyval list" where
  "lowered_body_search us searchterm h =
     map PStr (filter (\<lambda>b. contains searchterm (lower b))
       (bodies (take 999 (filter (\<lambda>e. kind_is ''commented'' e \<and> actor_among us e) h))))"

text \<open>
  The comments of a user as \<open>last_comment\<close> reads its argument (a list of identities,
  or one identity compared for equality), the body of an event, the last comment as the
  specification words it, and as the code has it.
\<close>

definition by_user :: "pyarg \<Rightarrow> event \<Rightarrow> bool" where
  "by_user username e =
     (kind_is ''commented'' e
      \<and> (case map_of e ''actor'' of None \<Rightarrow> False | Some a \<Rightarrow> actor_is username a))"

definition body_of :: "event \<Rightarrow> pyval" where
  "body_of e = (case map_of e ''body'' of None \<Rightarrow> PNone | Some b \<Rightarrow> b)"

definition spec_last_comment :: "pyarg \<Rightarrow> event list \<Rightarrow> pyval" where
  "spec_last_comment username h =
     (case List.find (by_user username) (rev h) of
        None \<Rightarrow> PNone
      | Some e \<Rightarrow> body_of e)"

definition last_nonempty_comment :: "pyarg \<Rightarrow> event list \<Rightarrow> pyval" where
  "last_nonempty_comment username h =
     (case List.find (\<lambda>e. by_user username e \<and> truthy (body_of e)) (rev h) of
        Some e \<Rightarrow> body_of e
      | None \<Rightarrow> (case filter (by_user username) h of [] \<Rightarrow> PNone | e # es \<Rightarrow> body_of e))"



fun instant :: "pyval \<Rightarrow> int" where
  "instant (PDate (DT w (Some off))) = w - off"
| "instant (PDate (ZDT z w off)) = w - off"
| "instant _ = 0"

definition created_at_of :: "event \<Rightarrow> pyval" where
  "created_at_of e = (case map_of e ''created_at'' of None \<Rightarrow> PNone | Some c \<Rightarrow> c)"

definition instant_of :: "event \<Rightarrow> int" where
  "instant_of e = instant (created_at_of e)"

definition fixed_created_at :: "event \<Rightarrow> bool" where
  "fixed_created_at e =
     (case map_of e ''created_at'' of None \<Rightarrow> False | Some c \<Rightarrow> is_fixed_aware c)"

text \<open>
  The reviews that \<open>merge_reviews\<close> keeps (a user, and one of the four submitted
  states), the ones it logs (a user, and a state outside the five known ones), the kind
  the specification gives each state, and what the event of a kept review must hold.
\<close>

definition kept :: "raw_review \<Rightarrow> bool" where
  "kept r = (r_user r \<noteq> NoUser
     \<and> (case r_state r of
           None \<Rightarrow> False
         | Some s \<Rightarrow> s \<in> {''COMMENTED'', ''CHANGES_REQUESTED'', ''APPROVED'', ''DISMISSED''}))"

definition unknown_state :: "raw_review \<Rightarrow> bool" where
  "unknown_state r = (r_user r \<noteq> NoUser
     \<and> (case r_state r of
           None \<Rightarrow> False
         | Some s \<Rightarrow> s \<notin> {''COMMENTED'', ''CHANGES_REQUESTED'', ''APPROVED'', ''DISMISSED'',
                             ''PENDING''}))"

definition unknown_message :: "raw_review \<Rightarrow> string" where
  "unknown_message r =
     ''unknown review state '' @ (case r_state r of None \<Rightarrow> [] | Some s \<Rightarrow> s)"

definition spec_review_kind :: "string \<Rightarrow> string option" where
  "spec_review_kind =
     map_of [(''COMMENTED'', ''review_comment''),
             (''CHANGES_REQUESTED'', ''review_changes_requested''),
             (''APPROVED'', ''review_approved''),
             (''DISMISSED'', ''review_dismissed'')]"

definition event_of_review :: "(string \<Rightarrow> error + datetime) \<Rightarrow> raw_review \<Rightarrow> event \<Rightarrow> bool" where
  "event_of_review strip_time_safely r e =
     (map_of e ''event''
        = (case r_state r of None \<Rightarrow> None | Some s \<Rightarrow> map_option PStr (spec_review_kind s))
      \<and> r_id r \<noteq> None \<and> map_of e ''id'' = r_id r
      \<and> (case r_user r of
            NoUser \<Rightarrow> False
          | UserRecord login \<Rightarrow> login \<noteq> None \<and> map_of e ''actor'' = map_option PStr login)
      \<and> (case r_submitted_at r of
            None \<Rightarrow> False
          | Some t \<Rightarrow>
              (case strip_time_safely t of
                 Inl err \<Rightarrow> False
               | Inr d \<Rightarrow> map_of e ''created_at'' = Some (PDate (DT (wall d) (Some 0)))))
      \<and> map_of e ''commit_id'' = Some (case r_commit_id r of None \<Rightarrow> PNone | Some c \<Rightarrow> c)
      \<and> map_of e ''body'' = Some (case r_body r of None \<Rightarrow> PNone | Some b \<Rightarrow> b))"

text \<open>
  The input contract of a raw review: a review with a user record has its \<^verbatim>\<open>state\<close>, and
  one that is kept has its \<^verbatim>\<open>id\<close>, a \<^verbatim>\<open>login\<close> in its user record and a \<^verbatim>\<open>submitted_at\<close>
  that the parser accepts.
\<close>

definition review_ok :: "(string \<Rightarrow> error + datetime) \<Rightarrow> raw_review \<Rightarrow> bool" where
  "review_ok strip_time_safely r =
     (case r_user r of
        NoUser \<Rightarrow> True
      | UserRecord login \<Rightarrow>
          (case r_state r of
             None \<Rightarrow> False
           | Some s \<Rightarrow>
               (case review_state_branch s of
                  Kind kind \<Rightarrow>
                    r_id r \<noteq> None \<and> login \<noteq> None
                    \<and> (case r_submitted_at r of
                          None \<Rightarrow> False
                        | Some t \<Rightarrow>
                            (case strip_time_safely t of Inl err \<Rightarrow> False | Inr d \<Rightarrow> True))
                | _ \<Rightarrow> True)))"

text \<open>The event a review adds to the timeline, if any, and the events of a list of reviews.\<close>

definition kept_event :: "(string \<Rightarrow> error + datetime) \<Rightarrow> raw_review \<Rightarrow> event option" where
  "kept_event strip_time_safely r =
     (case (r_user r, r_state r, r_id r, r_submitted_at r) of
        (UserRecord (Some login), Some s, Some rid, Some t) \<Rightarrow>
          (case review_state_branch s of
             Kind kind \<Rightarrow>
               (case strip_time_safely t of
                  Inl err \<Rightarrow> None
                | Inr submitted \<Rightarrow> Some (review_event kind rid login submitted r))
           | _ \<Rightarrow> None)
      | _ \<Rightarrow> None)"

definition review_events :: "(string \<Rightarrow> error + datetime) \<Rightarrow> raw_review list \<Rightarrow> event list" where
  "review_events strip_time_safely reviews = List.map_filter (kept_event strip_time_safely) reviews"






text \<open>
  The comments of the bots, a body that carries the marker, and a body from whose first
  marker line the name can be taken (the line has a third token).
\<close>

definition bot_comments :: "string list \<Rightarrow> event list \<Rightarrow> event list" where
  "bot_comments bot_names h =
     filter (\<lambda>e. kind_is ''commented'' e \<and> actor_among (map PStr bot_names) e) h"

definition marker_body :: "event \<Rightarrow> bool" where
  "marker_body e = (case map_of e ''body'' of Some (PStr b) \<Rightarrow> contains marker b | _ \<Rightarrow> False)"

definition name_extractable :: "event \<Rightarrow> bool" where
  "name_extractable e =
     (case map_of e ''body'' of
        Some (PStr b) \<Rightarrow>
          (case marker_lines b of [] \<Rightarrow> False | line # others \<Rightarrow> 3 \<le> length (split_ws line))
      | _ \<Rightarrow> False)"

definition body_text_or_none :: "event \<Rightarrow> bool" where
  "body_text_or_none e =
     (case map_of e ''body'' of
        None \<Rightarrow> True
      | Some v \<Rightarrow> (case v of PNone \<Rightarrow> True | PStr b \<Rightarrow> True | _ \<Rightarrow> False))"

definition boilerplate_shaped :: "event \<Rightarrow> bool" where
  "boilerplate_shaped e =
     (actor_shaped ''commented'' e \<and> has_created_at e \<and> body_text_or_none e)"

section \<open>Sample inputs\<close>

definition comment :: "string \<Rightarrow> int \<Rightarrow> string \<Rightarrow> event" where
  "comment a t b =
     [(''event'', PStr ''commented''), (''actor'', PStr a),
      (''created_at'', PDate (DT t (Some 0))), (''body'', PStr b)]"

definition wrapper :: "string list \<Rightarrow> event list \<Rightarrow> HistoryWrapper" where
  "wrapper ls h = \<lparr>hw_labels = ls, hw_last_updated = PDate (DT 0 (Some 0)), hw_history = h\<rparr>"

definition labeled :: "string \<Rightarrow> int \<Rightarrow> string \<Rightarrow> event" where
  "labeled a t l =
     [(''event'', PStr ''labeled''), (''actor'', PStr a),
      (''created_at'', PDate (DT t (Some 0))), (''label'', PStr l)]"

definition naive_comment :: "string \<Rightarrow> int \<Rightarrow> string \<Rightarrow> event" where
  "naive_comment a t b =
     [(''event'', PStr ''commented''), (''actor'', PStr a),
      (''created_at'', PDate (DT t None)), (''body'', PStr b)]"



definition empty_store :: store where
  "empty_store = \<lparr>cachedir_exists = False, cachefile = None, write_ok = True\<rparr>"

text \<open>A stand-in for the timestamp parser: it fails on \<^verbatim>\<open>'bad'\<close> and reads anything else.\<close>

definition sample_strip_time :: "string \<Rightarrow> error + datetime" where
  "sample_strip_time s = (if s = ''bad'' then Inl ParseError else Inr (DT (int (length s)) None))"

definition review :: "user_field \<Rightarrow> string \<Rightarrow> string \<Rightarrow> raw_review" where
  "review u s t =
     \<lparr>r_user = u, r_state = Some s, r_id = Some (PNum 7), r_submitted_at = Some t,
      r_commit_id = None, r_body = None\<rparr>"

definition ann :: user_field where
  "ann = UserRecord (Some ''ann'')"


text \<open>
  Two comments by the bot \<^verbatim>\<open>ansibot\<close>: one whose marker line has four tokens, one whose
  marker line has two.
\<close>

definition named_boilerplate :: event where
  "named_boilerplate = comment ''ansibot'' 1 ''<!--- boilerplate: needs_info --->''"

definition short_boilerplate :: event where
  "short_boilerplate = comment ''ansibot'' 2 ''boilerplate: x''"

section \<open>Properties\<close>

subsection \<open>String operations\<close>

text \<open>
  \<open>contains\<close> is the substring relation. A body that contains the marker has a
  non-blank line that contains it (the marker has no newline and is not blank), so
  \<^verbatim>\<open>lines[0]\<close> is in range and the boilerplate name fails on its third token only.
\<close>

lemma take_length_eq_iff: "(take (length n) h = n) = (\<exists>ss. h = n @ ss)"
proof
  assume "take (length n) h = n"
  then have "h = n @ drop (length n) h" by (metis append_take_drop_id)
  then show "\<exists>ss. h = n @ ss" ..
next
  assume "\<exists>ss. h = n @ ss"
  then show "take (length n) h = n" by auto
qed

lemma contains_iff: "contains needle hay = (\<exists>ps ss. hay = ps @ needle @ ss)"
proof (induction hay)
  case Nil
  then show ?case by auto
next
  case (Cons h hs)
  show ?case
  proof
    assume "contains needle (h # hs)"
    then consider "take (length needle) (h # hs) = needle" | "contains needle hs" by auto
    then show "\<exists>ps ss. h # hs = ps @ needle @ ss"
    proof cases
      case 1
      then obtain ss where "h # hs = needle @ ss" using take_length_eq_iff by blast
      then have "h # hs = [] @ needle @ ss" by simp
      then show ?thesis by blast
    next
      case 2
      with Cons obtain ps ss where "hs = ps @ needle @ ss" by blast
      then have "h # hs = (h # ps) @ needle @ ss" by simp
      then show ?thesis by blast
    qed
  next
    assume "\<exists>ps ss. h # hs = ps @ needle @ ss"
    then obtain ps ss where e: "h # hs = ps @ needle @ ss" by blast
    show "contains needle (h # hs)"
    proof (cases ps)
      case Nil
      then have "take (length needle) (h # hs) = needle" using e by (simp add: take_length_eq_iff)
      then show ?thesis by simp
    next
      case (Cons p ps')
      then have "hs = ps' @ needle @ ss" using e by simp
      then have "contains needle hs" using Cons.IH by blast
      then show ?thesis by simp
    qed
  qed
qed


lemma contains_across_separator:
  assumes "sep \<notin> set m" and "contains m (cur @ sep # cs)"
  shows "contains m cur \<or> contains m cs"
proof -
  from assms(2) obtain ps ss where e: "cur @ sep # cs = ps @ m @ ss"
    unfolding contains_iff by blast
  then obtain us where "(cur = ps @ us \<and> us @ sep # cs = m @ ss)
                       \<or> (cur @ us = ps \<and> sep # cs = us @ m @ ss)"
    unfolding append_eq_append_conv2 by blast
  then show ?thesis
  proof
    assume a: "cur = ps @ us \<and> us @ sep # cs = m @ ss"
    then obtain vs where "(us = m @ vs \<and> vs @ sep # cs = ss) \<or> (us @ vs = m \<and> sep # cs = vs @ ss)"
      unfolding append_eq_append_conv2 by blast
    then show ?thesis
    proof
      assume "us = m @ vs \<and> vs @ sep # cs = ss"
      then have "cur = ps @ m @ vs" using a by simp
      then show ?thesis unfolding contains_iff by blast
    next
      assume b: "us @ vs = m \<and> sep # cs = vs @ ss"
      show ?thesis
      proof (cases vs)
        case Nil
        then have "cur = ps @ m @ []" using a b by simp
        then show ?thesis unfolding contains_iff by blast
      next
        case (Cons v vs')
        then have "sep \<in> set m" using b by auto
        then show ?thesis using assms(1) by simp
      qed
    qed
  next
    assume a: "cur @ us = ps \<and> sep # cs = us @ m @ ss"
    show ?thesis
    proof (cases us)
      case Nil
      then have ms: "sep # cs = m @ ss" using a by simp
      show ?thesis
      proof (cases m)
        case Nil
        then have "cur = cur @ m @ []" by simp
        then show ?thesis unfolding contains_iff by blast
      next
        case (Cons x xs)
        then have "sep \<in> set m" using ms by auto
        then show ?thesis using assms(1) by simp
      qed
    next
      case (Cons u us')
      then have "cs = us' @ m @ ss" using a by simp
      then show ?thesis unfolding contains_iff by blast
    qed
  qed
qed

lemma split_on_keeps_match:
  assumes "sep \<notin> set m" and "contains m (cur @ s)"
  shows "\<exists>line \<in> set (split_on sep cur s). contains m line"
  using assms(2)
proof (induction s arbitrary: cur)
  case Nil
  then show ?case by simp
next
  case (Cons c cs)
  show ?case
  proof (cases "c = sep")
    case True
    with Cons.prems have "contains m cur \<or> contains m cs"
      using contains_across_separator [OF assms(1)] by simp
    then show ?thesis
    proof
      assume "contains m cur"
      then show ?thesis using True by simp
    next
      assume "contains m cs"
      then have "contains m ([] @ cs)" by simp
      from Cons.IH [OF this] show ?thesis using True by auto
    qed
  next
    case False
    from Cons.prems have "contains m ((cur @ [c]) @ cs)" by simp
    from Cons.IH [OF this] show ?thesis using False by simp
  qed
qed

lemma strip_nonblank:
  assumes "c \<in> set x" and "\<not> isspace c"
  shows "strip x \<noteq> []"
proof -
  have "dropWhile isspace x \<noteq> []" using assms by (auto simp: dropWhile_eq_Nil_conv)
  then have "\<not> isspace (hd (dropWhile isspace x))" by (rule hd_dropWhile)
  moreover have "hd (dropWhile isspace x) \<in> set (rev (dropWhile isspace x))"
    using \<open>dropWhile isspace x \<noteq> []\<close> by simp
  ultimately have "dropWhile isspace (rev (dropWhile isspace x)) \<noteq> []"
    by (auto simp: dropWhile_eq_Nil_conv)
  then show ?thesis by (simp add: strip_def)
qed

lemma marker_lines_nonempty:
  assumes "contains marker b"
  shows "marker_lines b \<noteq> []"
proof -
  have "CHR 0x0A \<notin> set marker" by (simp add: marker_def)
  moreover have "contains marker ([] @ b)" using assms by simp
  ultimately obtain line where l: "line \<in> set (split_lines b)" "contains marker line"
    unfolding split_lines_def using split_on_keeps_match by blast
  from l(2) obtain ps ss where "line = ps @ marker @ ss" unfolding contains_iff by blast
  then have "CHR ''b'' \<in> set line" by (simp add: marker_def)
  moreover have "\<not> isspace CHR ''b''" by (simp add: isspace_def)
  ultimately have "strip line \<noteq> []" by (rule strip_nonblank)
  with l show ?thesis by (auto simp: marker_lines_def filter_empty_conv)
qed

lemma boilerplate_name_third_token:
  assumes "contains marker b"
  shows "boilerplate_name b =
           (if 3 \<le> length (split_ws (hd (marker_lines b)))
            then Inr (split_ws (hd (marker_lines b)) ! 2) else Inl IndexError)"
  using marker_lines_nonempty [OF assms]
  by (cases "marker_lines b") (auto simp: boilerplate_name_def)

subsection \<open>validate_cache\<close>

lemma is_commented_eval:
  "is_commented x =
     (if map_of x ''event'' = None then Inl KeyError else Inr (kind_is ''commented'' x))"
  by (auto simp: is_commented_def getitem_def kind_is_def split: option.splits)

lemma is_needs_info_labeled_eval:
  "is_needs_info_labeled x =
     (if map_of x ''event'' = None \<or> (kind_is ''labeled'' x \<and> map_of x ''label'' = None)
      then Inl KeyError
      else Inr (kind_is ''labeled'' x \<and> map_of x ''label'' = Some (PStr ''needs_info'')))"
  by (auto simp: is_needs_info_labeled_def getitem_def kind_is_def split: option.splits)

lemma filterE_is_commented:
  "filterE is_commented h =
     (if list_all (\<lambda>x. map_of x ''event'' \<noteq> None) h
      then Inr (filter (kind_is ''commented'') h) else Inl KeyError)"
  by (induction h) (simp_all add: is_commented_eval)

lemma filterE_is_needs_info_labeled:
  "filterE is_needs_info_labeled h =
     (if list_all (\<lambda>x. map_of x ''event'' \<noteq> None) h
         \<and> list_all (\<lambda>x. kind_is ''labeled'' x \<longrightarrow> map_of x ''label'' \<noteq> None) h
      then Inr (filter (\<lambda>x. kind_is ''labeled'' x
                            \<and> map_of x ''label'' = Some (PStr ''needs_info'')) h)
      else Inl KeyError)"
  by (induction h) (auto simp: is_needs_info_labeled_eval)

lemma validate_cache_passed_three:
  assumes "c_history d = Some h" "c_updated_at d = Some u" "c_version d = Some v"
    and "truthy v" "py_lt v SCHEMA_VERSION = Inr False"
    and "py_lt u (hw_last_updated self) = Inr False"
  shows "validate_cache self (CDict d) =
     (if \<not> list_all (\<lambda>x. map_of x ''event'' \<noteq> None) h then Inl KeyError
      else if length h < length (filter (kind_is ''commented'') h) + length (hw_labels self)
      then Inr False
      else if ''needs_info'' \<in> set (hw_labels self)
      then (if list_all (\<lambda>x. kind_is ''labeled'' x \<longrightarrow> map_of x ''label'' \<noteq> None) h
            then Inr (\<exists>x \<in> set h. kind_is ''labeled'' x
                                  \<and> map_of x ''label'' = Some (PStr ''needs_info''))
            else Inl KeyError)
      else Inr True)"
  using assms
  by (auto simp: validate_cache_def filterE_is_commented filterE_is_needs_info_labeled
        filter_empty_conv)

lemma validate_cache_true_iff:
  "(validate_cache self cache = Inr True)
     = (rules_hold (hw_labels self) (hw_last_updated self) cache
        \<and> history_readable (hw_labels self) cache)"
proof (cases cache)
  case CNone
  then show ?thesis by (simp add: validate_cache_def rules_hold_def)
next
  case CNotDict
  then show ?thesis by (simp add: validate_cache_def rules_hold_def)
next
  case (CDict d)
  show ?thesis
  proof (cases "c_history d")
    case None
    then show ?thesis using CDict by (simp add: validate_cache_def rules_hold_def)
  next
    case h: (Some h)
    show ?thesis
    proof (cases "c_updated_at d")
      case None
      then show ?thesis using CDict h by (simp add: validate_cache_def rules_hold_def)
    next
      case u: (Some u)
      show ?thesis
      proof (cases "c_version d")
        case None
        then show ?thesis using CDict h u by (simp add: validate_cache_def rules_hold_def)
      next
        case v: (Some v)
        show ?thesis
        proof (cases "truthy v \<and> py_lt v SCHEMA_VERSION = Inr False
                      \<and> py_lt u (hw_last_updated self) = Inr False")
          case True
          then show ?thesis
            using validate_cache_passed_three [OF h u v, of self] CDict h u v
            by (auto simp: rules_hold_def history_readable_def)
        next
          case False
          then have "\<not> rules_hold (hw_labels self) (hw_last_updated self) cache"
            using CDict h u v by (auto simp: rules_hold_def)
          moreover have "validate_cache self cache \<noteq> Inr True"
            using False CDict h u v
            by (auto simp: validate_cache_def split: sum.splits if_splits)
          ultimately show ?thesis by simp
        qed
      qed
    qed
  qed
qed

lemma validate_cache_rejected_early:
  "rejected_early cache \<Longrightarrow> validate_cache self cache = Inr False"
  by (auto simp: rejected_early_def validate_cache_def split: cache.splits option.splits if_splits)

lemma validate_cache_older_than_item:
  "older_than_item (hw_last_updated self) cache \<Longrightarrow> validate_cache self cache = Inr False"
  by (auto simp: older_than_item_def validate_cache_def split: cache.splits option.splits)

lemma event_shaped_readable:
  "list_all event_shaped h \<Longrightarrow>
   list_all (\<lambda>x. map_of x ''event'' \<noteq> None) h
   \<and> list_all (\<lambda>x. kind_is ''labeled'' x \<longrightarrow> map_of x ''label'' \<noteq> None) h"
  by (induction h) (auto simp: event_shaped_def kind_is_def split: option.splits)

lemma number_or_none_compares:
  "is_number_or_none v \<Longrightarrow> truthy v \<Longrightarrow> \<exists>b. py_lt v SCHEMA_VERSION = Inr b"
  by (cases v) (auto simp: SCHEMA_VERSION_def)

lemma validate_cache_eq_rules:
  assumes "snapshot_shaped (hw_last_updated self) cache"
  shows "validate_cache self cache
           = Inr (rules_hold (hw_labels self) (hw_last_updated self) cache)"
proof (cases "rules_hold (hw_labels self) (hw_last_updated self) cache")
  case True
  moreover have "history_readable (hw_labels self) cache"
    using assms event_shaped_readable
    by (auto simp: snapshot_shaped_def history_readable_def split: cache.splits option.splits)
  ultimately show ?thesis using validate_cache_true_iff [of self cache] by simp
next
  case False
  show ?thesis
  proof (cases "rejected_early cache")
    case True
    then show ?thesis using False validate_cache_rejected_early by simp
  next
    case ne: False
    then obtain d h u v where d: "cache = CDict d" "c_history d = Some h"
      "c_updated_at d = Some u" "c_version d = Some v" "truthy v"
      "py_lt v SCHEMA_VERSION \<noteq> Inr True"
      by (auto simp: rejected_early_def split: cache.splits option.splits if_splits)
    from assms d have sh: "list_all event_shaped h" "comparable u (hw_last_updated self)"
      "is_number_or_none v"
      by (simp_all add: snapshot_shaped_def)
    from number_or_none_compares [OF sh(3) d(5)] d(6)
    have v: "py_lt v SCHEMA_VERSION = Inr False" by auto
    from sh(2) obtain older where o: "py_lt u (hw_last_updated self) = Inr older"
      by (auto simp: comparable_def split: sum.splits)
    show ?thesis
    proof (cases older)
      case True
      then have "older_than_item (hw_last_updated self) cache"
        using d v o by (simp add: older_than_item_def)
      then show ?thesis using False validate_cache_older_than_item by simp
    next
      case nolder: False
      with o have o': "py_lt u (hw_last_updated self) = Inr False" by simp
      show ?thesis
        using validate_cache_passed_three [OF d(2,3,4,5) v o'] False d v o'
          event_shaped_readable [OF sh(1)]
        by (auto simp: rules_hold_def)
    qed
  qed
qed





subsection \<open>Dumping and loading the cache\<close>

lemma any_non_datetime_eq:
  "list_all has_created_at h \<Longrightarrow> any_non_datetime h = Inr (\<not> list_all datetime_created_at h)"
  by (induction h)
     (auto simp: has_created_at_def datetime_created_at_def getitem_def split: option.splits)

text \<open>
  Claim C3, as the code has it: on a timeline whose events all have a \<^verbatim>\<open>created_at\<close>,
  the dump raises the integrity error (AssertionError), leaving the store as it was,
  exactly when some \<^verbatim>\<open>created_at\<close> is not a datetime object. When all are datetimes,
  timezone-aware or naive, the snapshot is written, or the write's own failure is raised.
\<close>

theorem dump_cache_integrity_check:
  assumes "list_all has_created_at (hw_history self)"
  shows "dump_cache self st =
           (if list_all datetime_created_at (hw_history self)
            then (if write_ok st
                  then (None, st\<lparr>cachedir_exists := True,
                                 cachefile := Some (Pickle (snapshot_of self))\<rparr>)
                  else (Some OSError, st\<lparr>cachedir_exists := True\<rparr>))
            else (Some AssertionError, st))"
  using any_non_datetime_eq [OF assms]
  by (simp add: dump_cache_def snapshot_of_def Let_def)

theorem dump_cache_integrity_check_witness:
  "list_all has_created_at
     (hw_history (wrapper [] [comment ''bob'' 1 ''hi'', [(''created_at'', PStr ''2020-01-01'')]]))
   \<and> dump_cache (wrapper [] [comment ''bob'' 1 ''hi'', [(''created_at'', PStr ''2020-01-01'')]])
       empty_store
     = (Some AssertionError, empty_store)"
  using dump_cache_integrity_check
    [of "wrapper [] [comment ''bob'' 1 ''hi'', [(''created_at'', PStr ''2020-01-01'')]]"
        empty_store]
  by (simp add: wrapper_def comment_def has_created_at_def datetime_created_at_def)

text \<open>
  The claim as worded fails on a naive datetime: the timeline below has an event whose
  \<^verbatim>\<open>created_at\<close> is not timezone-aware, and the dump raises nothing and persists it.
\<close>

theorem dump_cache_naive_counterexample:
  "\<not> list_all aware_created_at (hw_history (wrapper [] [naive_comment ''bob'' 1 ''hi'']))
   \<and> dump_cache (wrapper [] [naive_comment ''bob'' 1 ''hi'']) empty_store
       = (None, empty_store\<lparr>cachedir_exists := True,
             cachefile := Some (Pickle (snapshot_of (wrapper [] [naive_comment ''bob'' 1 ''hi''])))\<rparr>)"
  by (simp add: wrapper_def naive_comment_def aware_created_at_def dump_cache_def getitem_def
      empty_store_def snapshot_of_def)

lemma aware_has_created_at: "list_all aware_created_at h \<Longrightarrow> list_all has_created_at h"
  by (induction h) (auto simp: aware_created_at_def has_created_at_def split: option.splits)

lemma aware_datetime_created_at:
  "list_all aware_created_at h \<Longrightarrow> list_all datetime_created_at h"
proof (induction h)
  case Nil
  then show ?case by simp
next
  case (Cons e h)
  then obtain c where c: "map_of e ''created_at'' = Some c" "is_aware c"
    by (auto simp: aware_created_at_def split: option.splits)
  then have "is_datetime c" by (cases c rule: is_aware.cases) auto
  with c Cons show ?case by (simp add: datetime_created_at_def)
qed

lemma is_datetime_self_compare: "is_datetime v \<Longrightarrow> py_lt v v = Inr False"
  by (cases "(v, v)" rule: py_lt.cases) auto

lemma validate_snapshot_of:
  assumes "list_all event_shaped (hw_history self)" "is_datetime (hw_last_updated self)"
  shows "validate_cache self (snapshot_of self)
           = Inr (completeness_floor self \<and> needs_info_guard self)"
proof -
  have "snapshot_shaped (hw_last_updated self) (snapshot_of self)"
    using assms is_datetime_self_compare [OF assms(2)]
    by (simp add: snapshot_shaped_def snapshot_of_def SCHEMA_VERSION_def comparable_def)
  from validate_cache_eq_rules [OF this] show ?thesis
    using is_datetime_self_compare [OF assms(2)]
    by (simp add: rules_hold_def snapshot_of_def SCHEMA_VERSION_def
        completeness_floor_def needs_info_guard_def)
qed

text \<open>
  Claim C4, as the code has it: for every timeline of timezone-aware, well-shaped events,
  every list of labels and every update timestamp, on a writable store the dump
  succeeds, loading what it wrote gives a snapshot whose history is the dumped event
  sequence, and \<open>validate_cache\<close> accepts that snapshot exactly when the timeline is at
  least as long as its \<^verbatim>\<open>commented\<close> events plus the current labels and, with
  \<^verbatim>\<open>needs_info\<close> among the labels, has a \<^verbatim>\<open>labeled\<close> event for it.
\<close>

theorem dump_then_load_round_trip:
  assumes "list_all aware_created_at (hw_history self)"
    and "list_all event_shaped (hw_history self)"
    and "is_datetime (hw_last_updated self)"
    and "write_ok st"
  shows "\<exists>st1 st2 cache.
           dump_cache self st = (None, st1)
         \<and> load_cache st1 = (cache, st2)
         \<and> cache_history cache = Inr (hw_history self)
         \<and> validate_cache self cache = Inr (completeness_floor self \<and> needs_info_guard self)"
proof -
  have "any_non_datetime (hw_history self) = Inr False"
    using any_non_datetime_eq [OF aware_has_created_at [OF assms(1)]]
      aware_datetime_created_at [OF assms(1)] by simp
  then have d: "dump_cache self st
     = (None, st\<lparr>cachedir_exists := True, cachefile := Some (Pickle (snapshot_of self))\<rparr>)"
    using assms(4) by (simp add: dump_cache_def snapshot_of_def Let_def)
  have l: "load_cache (st\<lparr>cachedir_exists := True, cachefile := Some (Pickle (snapshot_of self))\<rparr>)
     = (snapshot_of self,
        st\<lparr>cachedir_exists := True, cachefile := Some (Pickle (snapshot_of self))\<rparr>)"
    by (simp add: load_cache_def)
  have h: "cache_history (snapshot_of self) = Inr (hw_history self)"
    by (simp add: cache_history_def snapshot_of_def)
  from d l h validate_snapshot_of [OF assms(2,3)] show ?thesis by blast
qed

theorem dump_then_load_round_trip_witness:
  "list_all aware_created_at
     (hw_history (wrapper [''needs_info'']
        [labeled ''ann'' 1 ''needs_info'', comment ''bob'' 2 ''hi'']))
   \<and> write_ok empty_store
   \<and> (\<exists>st1 st2 cache.
           dump_cache (wrapper [''needs_info'']
             [labeled ''ann'' 1 ''needs_info'', comment ''bob'' 2 ''hi'']) empty_store = (None, st1)
         \<and> load_cache st1 = (cache, st2)
         \<and> cache_history cache = Inr [labeled ''ann'' 1 ''needs_info'', comment ''bob'' 2 ''hi'']
         \<and> validate_cache (wrapper [''needs_info'']
             [labeled ''ann'' 1 ''needs_info'', comment ''bob'' 2 ''hi'']) cache = Inr True)"
  using dump_then_load_round_trip
    [of "wrapper [''needs_info''] [labeled ''ann'' 1 ''needs_info'', comment ''bob'' 2 ''hi'']"
        empty_store]
  by (simp add: wrapper_def labeled_def comment_def aware_created_at_def event_shaped_def
      empty_store_def completeness_floor_def needs_info_guard_def kind_is_def)

text \<open>
  The claim as worded promises a snapshot that passes validation for every label set.
  With one comment in the timeline and one current label, the dump succeeds, the load
  returns the dumped snapshot, and \<open>validate_cache\<close> rejects it: the history has one
  event, the floor asks for two.
\<close>

theorem round_trip_validation_counterexample:
  "list_all aware_created_at (hw_history (wrapper [''bug''] [comment ''bob'' 1 ''hi'']))
   \<and> dump_cache (wrapper [''bug''] [comment ''bob'' 1 ''hi'']) empty_store
       = (None, empty_store\<lparr>cachedir_exists := True,
             cachefile := Some (Pickle (snapshot_of (wrapper [''bug''] [comment ''bob'' 1 ''hi''])))\<rparr>)
   \<and> fst (load_cache (snd (dump_cache (wrapper [''bug''] [comment ''bob'' 1 ''hi'']) empty_store)))
       = snapshot_of (wrapper [''bug''] [comment ''bob'' 1 ''hi''])
   \<and> validate_cache (wrapper [''bug''] [comment ''bob'' 1 ''hi''])
        (fst (load_cache (snd (dump_cache (wrapper [''bug''] [comment ''bob'' 1 ''hi''])
           empty_store))))
       = Inr False"
  by (simp add: wrapper_def comment_def aware_created_at_def dump_cache_def getitem_def
      empty_store_def snapshot_of_def load_cache_def validate_cache_def SCHEMA_VERSION_def
      is_commented_def)

subsection \<open>Scanning by actor\<close>

text \<open>
  Claim C5 at a failing input: the filter is the single identity \<^verbatim>\<open>'bobby'\<close>, the only
  event is a comment by \<^verbatim>\<open>'bob'\<close>. A string is a \<^verbatim>\<open>Sequence\<close>, so it is not wrapped into a
  list, and \<^verbatim>\<open>event['actor'] in actor\<close> is a substring test: the event is selected although
  its actor is not the identity asked for. \<open>was_assigned\<close> answers \<open>True\<close> the same way.
\<close>

theorem find_events_by_actor_string_filter_is_substring:
  "find_events_by_actor (PStr ''commented'') (Val (PStr ''bobby'')) 1
     (wrapper [] [comment ''bob'' 1 ''hi'']) = Inr [comment ''bob'' 1 ''hi'']
   \<and> was_assigned (Val (PStr ''bobby''))
       (wrapper [] [[(''event'', PStr ''assigned''), (''actor'', PStr ''bob''),
                     (''created_at'', PDate (DT 1 (Some 0)))]]) = Inr True"
  by (simp add: find_events_by_actor_def wrap_actor_def wrapper_def comment_def getitem_def
      was_assigned_def)

text \<open>
  With a list of identities as the filter and a positive limit, the scan returns the
  first \<open>maxcount\<close> events of the kind whose actor is in the list.
\<close>

lemma find_events_loop_seq:
  assumes "list_all (actor_shaped k) h" and "k \<noteq> []" and "int (length acc) < mc"
  shows "find_events_loop (PStr k) (Seq us) mc acc h
           = Inr (take (nat mc) (acc @ filter (\<lambda>e. kind_is k e \<and> actor_among us e) h))"
  using assms
proof (induction h arbitrary: acc)
  case Nil
  then show ?case by simp
next
  case (Cons e h)
  from Cons.prems obtain v where v: "map_of e ''event'' = Some v"
    by (auto simp: actor_shaped_def split: option.splits)
  have sh: "list_all (actor_shaped k) h" using Cons.prems by simp
  show ?case
  proof (cases "v = PStr k")
    case False
    then have nk: "\<not> kind_is k e" using v by (simp add: kind_is_def)
    show ?thesis using v False nk Cons.IH [OF sh Cons.prems(2,3)] Cons.prems(2)
      by (simp add: getitem_def)
  next
    case True
    then have isk: "kind_is k e" using v by (simp add: kind_is_def)
    from Cons.prems True v obtain a where a: "map_of e ''actor'' = Some a"
      by (auto simp: actor_shaped_def)
    show ?thesis
    proof (cases "a \<in> set us")
      case False
      then have "\<not> actor_among us e" using a by (simp add: actor_among_def)
      then show ?thesis using v True a False Cons.IH [OF sh Cons.prems(2,3)] Cons.prems(3)
        by (simp add: getitem_def)
    next
      case yes: True
      then have am: "actor_among us e" using a by (simp add: actor_among_def)
      show ?thesis
      proof (cases "int (length (acc @ [e])) = mc")
        case True
        then have "nat mc = length (acc @ [e])" by simp
        then have "take (nat mc) (acc @ filter (\<lambda>e. kind_is k e \<and> actor_among us e) (e # h))
                     = acc @ [e]"
          using isk am by simp
        then show ?thesis using v \<open>v = PStr k\<close> a yes True by (simp add: getitem_def)
      next
        case False
        then have lt: "int (length (acc @ [e])) < mc" using Cons.prems(3) by simp
        show ?thesis using v \<open>v = PStr k\<close> a yes False isk am Cons.IH [OF sh Cons.prems(2) lt]
          by (simp add: getitem_def)
      qed
    qed
  qed
qed

lemma find_events_by_actor_seq:
  assumes "list_all (actor_shaped k) (hw_history self)" and "k \<noteq> []" and "0 < mc"
  shows "find_events_by_actor (PStr k) (Seq us) mc self
           = Inr (take (nat mc)
                   (filter (\<lambda>e. kind_is k e \<and> actor_among us e) (hw_history self)))"
  using find_events_loop_seq [OF assms(1,2), of "[]" mc us] assms(3)
  by (simp add: find_events_by_actor_def wrap_actor_def)

subsection \<open>search_user_comments\<close>

lemma comment_shaped_actor_shaped:
  "list_all comment_shaped h \<Longrightarrow> list_all (actor_shaped ''commented'') h"
  by (induction h) (auto simp: comment_shaped_def actor_shaped_def split: option.splits)

lemma search_bodies_eq:
  "list_all (\<lambda>e. kind_is ''commented'' e \<and> comment_shaped e) evs \<Longrightarrow>
   search_bodies t evs = Inr (map PStr (filter (\<lambda>b. contains t (lower b)) (bodies evs)))"
  by (induction evs)
     (auto simp: kind_is_def comment_shaped_def getitem_def split: option.splits pyval.splits)

text \<open>
  What the code computes for a list of user identities: the bodies, in order, of the first
  999 comment events by those users whose lowered body contains the term as it was given.
\<close>

lemma search_user_comments_lowered_body:
  assumes "list_all comment_shaped (hw_history self)"
  shows "search_user_comments (Seq us) searchterm self
           = Inr (lowered_body_search us searchterm (hw_history self))"
proof -
  let ?sel = "take 999 (filter (\<lambda>e. kind_is ''commented'' e \<and> actor_among us e)
                          (hw_history self))"
  have f: "find_events_by_actor (PStr ''commented'') (Seq us) 999 self = Inr ?sel"
    using find_events_by_actor_seq [OF comment_shaped_actor_shaped [OF assms], of 999 us]
    by simp
  have "list_all (\<lambda>e. kind_is ''commented'' e \<and> comment_shaped e) ?sel"
    using assms by (auto simp: list_all_iff dest: in_set_takeD)
  from search_bodies_eq [OF this] f show ?thesis
    by (simp add: search_user_comments_def lowered_body_search_def)
qed

text \<open>
  Claim C8 at a failing input: the user \<^verbatim>\<open>bob\<close> has one comment, \<^verbatim>\<open>'LGTM'\<close>, and the term is
  \<^verbatim>\<open>'LGTM'\<close>. The code lowers the body and leaves the term as it is: \<^verbatim>\<open>'LGTM' in 'lgtm'\<close> is
  false, and nothing is returned. The match the claim states, independent of the case of
  either side, returns the comment.
\<close>

theorem search_user_comments_uppercase_term_not_found:
  "search_user_comments (Seq [PStr ''bob'']) ''LGTM'' (wrapper [] [comment ''bob'' 1 ''LGTM''])
     = Inr []
   \<and> spec_search_user_comments [PStr ''bob''] ''LGTM''
       (hw_history (wrapper [] [comment ''bob'' 1 ''LGTM''])) = [PStr ''LGTM'']"
  by (simp add: search_user_comments_def find_events_by_actor_def wrap_actor_def wrapper_def
      comment_def getitem_def spec_search_user_comments_def kind_is_def actor_among_def
      lower_def)

subsection \<open>last_comment\<close>

lemma last_comment_loop_eq:
  assumes "list_all comment_keys xs" and "\<not> truthy l"
  shows "last_comment_loop u l xs
     = Inr (case List.find (\<lambda>e. by_user u e \<and> truthy (body_of e)) xs of
              Some e \<Rightarrow> body_of e
            | None \<Rightarrow> (case filter (by_user u) xs of
                         [] \<Rightarrow> l
                       | e # es \<Rightarrow> body_of (last (e # es))))"
  using assms
proof (induction xs arbitrary: l)
  case Nil
  then show ?case by simp
next
  case (Cons e xs)
  from Cons.prems obtain v where v: "map_of e ''event'' = Some v"
    by (auto simp: comment_keys_def split: option.splits)
  have sh: "list_all comment_keys xs" using Cons.prems by simp
  show ?case
  proof (cases "by_user u e")
    case False
    then have eq: "last_comment_loop u l (e # xs) = last_comment_loop u l xs"
      using v Cons.prems
      by (auto simp: getitem_def by_user_def kind_is_def comment_keys_def split: option.splits)
    have f: "filter (by_user u) (e # xs) = filter (by_user u) xs"
      and g: "List.find (\<lambda>e. by_user u e \<and> truthy (body_of e)) (e # xs)
                = List.find (\<lambda>e. by_user u e \<and> truthy (body_of e)) xs"
      using False by simp_all
    show ?thesis unfolding eq Cons.IH [OF sh Cons.prems(2)] f g ..
  next
    case True
    then obtain a b where ab: "v = PStr ''commented''" "map_of e ''actor'' = Some a"
      "actor_is u a" "map_of e ''body'' = Some b"
      using v Cons.prems
      by (auto simp: by_user_def kind_is_def comment_keys_def split: option.splits)
    then have bo: "body_of e = b" by (simp add: body_of_def)
    show ?thesis
    proof (cases "truthy b")
      case t: True
      then show ?thesis using v ab True bo by (simp add: getitem_def)
    next
      case f: False
      have eq: "last_comment_loop u l (e # xs) = last_comment_loop u b xs"
        using v ab f by (simp add: getitem_def)
      show ?thesis unfolding eq Cons.IH [OF sh f] using True bo f
        by (auto split: option.splits list.splits)
    qed
  qed
qed

lemma case_rev_last:
  "(case rev ys of [] \<Rightarrow> d | e # es \<Rightarrow> g (last (e # es)))
     = (case ys of [] \<Rightarrow> d | e # es \<Rightarrow> g e)"
  by (cases ys) (simp_all add: list.case_eq_if)

text \<open>
  What the code computes: the body of the chronologically last comment by the actor whose
  body is truthy; with comments by the actor but no truthy body, the body of the earliest
  one; \<^verbatim>\<open>None\<close> when the actor never commented.
\<close>

lemma last_comment_last_nonempty:
  assumes "list_all comment_keys (hw_history self)"
  shows "last_comment username self = Inr (last_nonempty_comment username (hw_history self))"
proof -
  have sh: "list_all comment_keys (rev (hw_history self))"
    using assms by (simp add: list_all_iff)
  have nt: "\<not> truthy PNone" by simp
  have f: "filter (by_user username) (rev (hw_history self))
             = rev (filter (by_user username) (hw_history self))"
    by (simp add: rev_filter)
  show ?thesis
    unfolding last_comment_def last_nonempty_comment_def last_comment_loop_eq [OF sh nt] f
      case_rev_last ..
qed

text \<open>
  The sibling scan \<open>label_last_applied\<close> leaves its loop on the match itself: it
  returns the \<^verbatim>\<open>created_at\<close> of the last \<^verbatim>\<open>labeled\<close> event with the label, whatever that
  value is.
\<close>

lemma label_last_applied_loop_eq:
  assumes "list_all event_shaped xs" and "list_all has_created_at xs"
  shows "label_last_applied_loop l xs
     = Inr (case List.find (\<lambda>e. kind_is ''labeled'' e \<and> map_of e ''label'' = Some l) xs of
              None \<Rightarrow> PNone
            | Some e \<Rightarrow> created_at_of e)"
  using assms
proof (induction xs)
  case Nil
  then show ?case by simp
next
  case (Cons e xs)
  then obtain v c where v: "map_of e ''event'' = Some v" and c: "map_of e ''created_at'' = Some c"
    by (auto simp: event_shaped_def has_created_at_def split: option.splits)
  from Cons have IH: "label_last_applied_loop l xs
     = Inr (case List.find (\<lambda>e. kind_is ''labeled'' e \<and> map_of e ''label'' = Some l) xs of
              None \<Rightarrow> PNone
            | Some e \<Rightarrow> created_at_of e)" by simp
  show ?case
  proof (cases "v = PStr ''labeled''")
    case False
    then show ?thesis using v IH by (simp add: getitem_def kind_is_def)
  next
    case True
    with Cons.prems v obtain lb where lb: "map_of e ''label'' = Some lb"
      by (auto simp: event_shaped_def)
    show ?thesis using v True lb c IH
      by (simp add: getitem_def kind_is_def created_at_of_def)
  qed
qed

lemma label_last_applied_last_match:
  assumes "list_all event_shaped (hw_history self)"
    and "list_all has_created_at (hw_history self)"
  shows "label_last_applied l self
     = Inr (case List.find (\<lambda>e. kind_is ''labeled'' e \<and> map_of e ''label'' = Some l)
                   (rev (hw_history self)) of
              None \<Rightarrow> PNone
            | Some e \<Rightarrow> created_at_of e)"
proof -
  have "list_all event_shaped (rev (hw_history self))"
    "list_all has_created_at (rev (hw_history self))"
    using assms by (simp_all add: list_all_iff)
  then show ?thesis unfolding label_last_applied_def by (rule label_last_applied_loop_eq)
qed

text \<open>
  Claim C9 at a failing input: \<^verbatim>\<open>bob\<close> commented \<^verbatim>\<open>'first'\<close> and then, with an empty body,
  once more. The chronologically last comment by \<^verbatim>\<open>bob\<close> has the body \<^verbatim>\<open>''\<close>; the scan
  meets it first, but \<^verbatim>\<open>if last_comment: break\<close> tests the body, not the match, so the
  scan goes on and the code returns \<^verbatim>\<open>'first'\<close>.
\<close>

theorem last_comment_skips_empty_last_body:
  "last_comment (Val (PStr ''bob''))
     (wrapper [] [comment ''bob'' 1 ''first'', comment ''bob'' 2 []]) = Inr (PStr ''first'')
   \<and> spec_last_comment (Val (PStr ''bob''))
       (hw_history (wrapper [] [comment ''bob'' 1 ''first'', comment ''bob'' 2 []])) = PStr []"
  by (simp add: last_comment_def wrapper_def comment_def getitem_def spec_last_comment_def
      by_user_def kind_is_def body_of_def)

subsection \<open>command_status\<close>

lemma find_append_case:
  "List.find P (xs @ ys) = (case List.find P xs of None \<Rightarrow> List.find P ys | Some x \<Rightarrow> Some x)"
  by (induction xs) auto

lemma command_status_loop_eq:
  "list_all text_body h \<Longrightarrow>
   command_status_loop c st h =
     Inr (case List.find (\<lambda>b. strip b = c \<or> strip b = CHR ''!'' # c) (rev (bodies h)) of
            None \<Rightarrow> st | Some b \<Rightarrow> Some (strip b = c))"
proof (induction h arbitrary: st)
  case Nil
  then show ?case by simp
next
  case (Cons e h)
  then have tb: "list_all text_body h" by simp
  note IH = Cons.IH [OF tb]
  show ?case
  proof (cases "map_of e ''body''")
    case None
    then show ?thesis using IH by simp
  next
    case (Some v)
    with Cons.prems obtain b where v: "v = PStr b"
      by (auto simp: text_body_def split: pyval.splits)
    show ?thesis using Some v IH
      by (auto simp: find_append_case split: option.splits)
  qed
qed

text \<open>
  Claim C7, as the code has it: on a timeline whose bodies are text, \<open>command_status\<close>
  returns, and its value is decided by the last body that equals the command or its
  negation after surrounding whitespace is stripped: \<open>True\<close> for the command,
  \<open>False\<close> for the negation, \<open>None\<close> when no body matches. Later matches override
  earlier ones.
\<close>

theorem command_status_last_stripped_match:
  assumes "list_all text_body (hw_history self)"
  shows "command_status command self = Inr (stripped_command_status command (hw_history self))"
  using command_status_loop_eq [OF assms, of command None]
  by (simp add: command_status_def stripped_command_status_def)

theorem command_status_last_stripped_match_witness:
  "list_all text_body
     (hw_history (wrapper [] [comment ''bob'' 1 ''shipit'', comment ''bob'' 2 ''!shipit'']))
   \<and> command_status ''shipit''
       (wrapper [] [comment ''bob'' 1 ''shipit'', comment ''bob'' 2 ''!shipit''])
     = Inr (Some False)"
  using command_status_last_stripped_match
    [of "wrapper [] [comment ''bob'' 1 ''shipit'', comment ''bob'' 2 ''!shipit'']" "''shipit''"]
  by (simp add: wrapper_def comment_def text_body_def stripped_command_status_def strip_def
      isspace_def)

text \<open>
  The claim as worded compares the bodies exactly. A later body \<^verbatim>\<open>" !shipit"\<close> does not
  equal the negation exactly, so the worded status is \<open>True\<close>; the code strips it and
  returns \<open>False\<close>.
\<close>

theorem command_status_exact_match_counterexample:
  "command_status ''shipit''
     (wrapper [] [comment ''bob'' 1 ''shipit'', comment ''bob'' 2 '' !shipit''])
     = Inr (Some False)
   \<and> spec_command_status ''shipit''
       (hw_history (wrapper [] [comment ''bob'' 1 ''shipit'', comment ''bob'' 2 '' !shipit'']))
     = Some True"
  by (simp add: command_status_def wrapper_def comment_def spec_command_status_def strip_def
      isspace_def)

subsection \<open>Sorting a timeline of fixed-offset aware events\<close>

text \<open>
  On aware keys of fixed offset \<^verbatim>\<open><\<close> is the order of the instants, every pair compares,
  and the sort of the model is the stable insertion sort of the library on the instants.
\<close>

lemma fixed_py_lt: "is_fixed_aware a \<Longrightarrow> is_fixed_aware b \<Longrightarrow> py_lt a b = Inr (instant a < instant b)"
  by (cases a rule: is_fixed_aware.cases; cases b rule: is_fixed_aware.cases) simp_all

lemma fixed_comparable: "is_fixed_aware a \<Longrightarrow> is_fixed_aware b \<Longrightarrow> comparable a b"
  by (simp add: comparable_def fixed_py_lt)

lemma fixed_pairwise_comparable: "list_all is_fixed_aware ks \<Longrightarrow> pairwise_comparable ks"
  by (induction ks) (auto simp: list_all_iff fixed_comparable)

lemma fixed_created_keys:
  "list_all fixed_created_at h \<Longrightarrow> created_keys h = Inr (map created_at_of h)"
  by (induction h)
     (auto simp: fixed_created_at_def created_at_of_def getitem_def split: option.splits)

lemma fixed_created_at_of: "fixed_created_at e \<Longrightarrow> is_fixed_aware (created_at_of e)"
  by (auto simp: fixed_created_at_def created_at_of_def split: option.splits)

lemma insort_lt_fixed:
  "is_fixed_aware (fst x) \<Longrightarrow> list_all (\<lambda>p. is_fixed_aware (fst p)) ys \<Longrightarrow>
   insort_lt x ys = insort_key (\<lambda>p. instant (fst p)) x ys"
  by (induction ys) (auto simp: fixed_py_lt)

lemma stable_sort_lt_fixed:
  "list_all (\<lambda>p. is_fixed_aware (fst p)) ps \<Longrightarrow> stable_sort_lt ps = sort_key (\<lambda>p. instant (fst p)) ps"
proof (induction ps)
  case Nil
  then show ?case by (simp add: stable_sort_lt_def)
next
  case (Cons p ps)
  then have IH: "stable_sort_lt ps = sort_key (\<lambda>p. instant (fst p)) ps" by simp
  have "list_all (\<lambda>p. is_fixed_aware (fst p)) (sort_key (\<lambda>p. instant (fst p)) ps)"
    using Cons.prems by (simp add: list_all_iff)
  with Cons.prems IH show ?case
    using insort_lt_fixed [of p "sort_key (\<lambda>p. instant (fst p)) ps"]
    by (simp add: stable_sort_lt_def)
qed

lemma insort_key_decorated:
  "insort_key (\<lambda>p. f (fst p)) (g x, x) (map (\<lambda>e. (g e, e)) ys)
     = map (\<lambda>e. (g e, e)) (insort_key (\<lambda>e. f (g e)) x ys)"
  by (induction ys) auto

lemma sort_key_decorated:
  "sort_key (\<lambda>p. f (fst p)) (map (\<lambda>e. (g e, e)) h) = map (\<lambda>e. (g e, e)) (sort_key (\<lambda>e. f (g e)) h)"
  by (induction h) (simp_all add: insort_key_decorated)

lemma zip_map_self: "zip (map g h) h = map (\<lambda>e. (g e, e)) h"
  by (induction h) auto

lemma py_sorted_fixed:
  assumes "list_all fixed_created_at h"
  shows "py_sorted h = Inr (sort_key instant_of h)"
proof -
  have k: "created_keys h = Inr (map created_at_of h)" by (rule fixed_created_keys [OF assms])
  have a: "list_all is_fixed_aware (map created_at_of h)"
    using assms by (auto simp: list_all_iff fixed_created_at_of)
  have p: "list_all (\<lambda>p. is_fixed_aware (fst p)) (map (\<lambda>e. (created_at_of e, e)) h)"
    using assms by (auto simp: list_all_iff fixed_created_at_of)
  have "map snd (stable_sort_lt (zip (map created_at_of h) h)) = sort_key instant_of h"
    unfolding zip_map_self stable_sort_lt_fixed [OF p] sort_key_decorated
    by (simp add: o_def instant_of_def [abs_def])
  with k fixed_pairwise_comparable [OF a] show ?thesis by (simp add: py_sorted_def)
qed





subsection \<open>merge_commits and merge_reviews\<close>



lemma review_event_fixed: "fixed_created_at (review_event kind rid login d r)"
  by (cases d) (simp_all add: review_event_def fixed_created_at_def)

lemma review_state_branch_kind:
  "(review_state_branch s = Kind k) = (spec_review_kind s = Some k)"
  by (auto simp: review_state_branch_def spec_review_kind_def)

lemma review_state_branch_unknown:
  "(review_state_branch s = Unknown)
     = (s \<notin> {''COMMENTED'', ''CHANGES_REQUESTED'', ''APPROVED'', ''DISMISSED'', ''PENDING''})"
  by (auto simp: review_state_branch_def)

lemma review_state_branch_kept:
  "(\<exists>k. review_state_branch s = Kind k)
     = (s \<in> {''COMMENTED'', ''CHANGES_REQUESTED'', ''APPROVED'', ''DISMISSED''})"
  by (auto simp: review_state_branch_def)

lemma kept_iff:
  "kept r = (r_user r \<noteq> NoUser
             \<and> (\<exists>s k. r_state r = Some s \<and> review_state_branch s = Kind k))"
  by (cases "r_state r") (simp_all add: kept_def review_state_branch_kept)

lemma merge_reviews_loop_eq:
  assumes "list_all (review_ok parse) reviews"
  shows "merge_reviews_loop parse h lg reviews
           = (None, h @ review_events parse reviews,
              lg @ map unknown_message (filter unknown_state reviews))"
  using assms
proof (induction reviews arbitrary: h lg)
  case Nil
  then show ?case by (simp add: review_events_def)
next
  case (Cons r rs)
  then have ok: "review_ok parse r" and oks: "list_all (review_ok parse) rs" by simp_all
  note IH = Cons.IH [OF oks]
  show ?case
  proof (cases "r_user r")
    case NoUser
    then show ?thesis using IH
      by (simp add: review_events_def kept_event_def unknown_state_def)
  next
    case (UserRecord login)
    with ok obtain s where s: "r_state r = Some s"
      by (auto simp: review_ok_def split: option.splits)
    show ?thesis
    proof (cases "review_state_branch s")
      case (Kind k)
      with ok UserRecord s obtain rid actor t d where f: "r_id r = Some rid"
        "login = Some actor" "r_submitted_at r = Some t" "parse t = Inr d"
        by (auto simp: review_ok_def split: option.splits sum.splits)
      have nu: "\<not> unknown_state r"
        using Kind s by (auto simp: unknown_state_def review_state_branch_def split: if_splits)
      show ?thesis using UserRecord s Kind f nu IH
        by (simp add: review_events_def kept_event_def)
    next
      case Pending
      then have nu: "\<not> unknown_state r"
        using s by (auto simp: unknown_state_def review_state_branch_def split: if_splits)
      show ?thesis using UserRecord s Pending nu IH
        by (simp add: review_events_def kept_event_def split: option.splits)
    next
      case Unknown
      then have u: "unknown_state r" using UserRecord s
        by (simp add: unknown_state_def review_state_branch_unknown)
      show ?thesis using UserRecord s Unknown u IH
        by (simp add: review_events_def kept_event_def unknown_message_def split: option.splits)
    qed
  qed
qed

lemma kept_event_fixed: "kept_event parse r = Some e \<Longrightarrow> fixed_created_at e"
  by (auto simp: kept_event_def review_event_fixed
           split: user_field.splits option.splits state_branch.splits sum.splits)

lemma review_events_fixed: "list_all fixed_created_at (review_events parse reviews)"
  by (induction reviews)
     (auto simp: review_events_def kept_event_fixed split: option.splits)

lemma review_events_of_kept:
  assumes "list_all (review_ok parse) reviews"
  shows "list_all2 (event_of_review parse) (filter kept reviews) (review_events parse reviews)"
  using assms
proof (induction reviews)
  case Nil
  then show ?case by (simp add: review_events_def)
next
  case (Cons r rs)
  then have ok: "review_ok parse r"
    and IH: "list_all2 (event_of_review parse) (filter kept rs) (review_events parse rs)"
    by simp_all
  show ?case
  proof (cases "kept r")
    case False
    then have "kept_event parse r = None"
      by (auto simp: kept_iff kept_event_def
               split: user_field.splits option.splits state_branch.splits)
    then show ?thesis using False IH by (simp add: review_events_def)
  next
    case True
    then obtain login s k where lk: "r_user r = UserRecord login" "r_state r = Some s"
      "review_state_branch s = Kind k"
      by (cases "r_user r") (auto simp: kept_iff)
    with ok obtain rid actor t d where f: "r_id r = Some rid"
      "login = Some actor" "r_submitted_at r = Some t" "parse t = Inr d"
      by (auto simp: review_ok_def split: option.splits sum.splits)
    have ke: "kept_event parse r = Some (review_event k rid actor d r)"
      using lk f by (simp add: kept_event_def)
    have "event_of_review parse r (review_event k rid actor d r)"
      using lk f
      by (cases d) (simp_all add: event_of_review_def review_event_def review_state_branch_kind)
    then show ?thesis using True ke IH by (simp add: review_events_def)
  qed
qed

lemma sort_history_fixed:
  assumes "list_all fixed_created_at (hw_history self)"
  shows "sort_history self = (None, self\<lparr>hw_history := sort_key instant_of (hw_history self)\<rparr>)"
  by (simp add: sort_history_def py_sorted_fixed [OF assms])


lemma merge_reviews_fixed:
  assumes "list_all (review_ok parse) reviews" and "list_all fixed_created_at (hw_history self)"
  shows "merge_reviews parse reviews self
           = (None,
              self\<lparr>hw_history :=
                     sort_key instant_of (hw_history self @ review_events parse reviews)\<rparr>,
              map unknown_message (filter unknown_state reviews))"
proof -
  have "list_all fixed_created_at (hw_history self @ review_events parse reviews)"
    using assms(2) review_events_fixed [of parse reviews] by simp
  then show ?thesis
    by (simp add: merge_reviews_def merge_reviews_loop_eq [OF assms(1)] sort_history_def
        py_sorted_fixed)
qed

text \<open>
  Claim C6, as the code has it. For every list of raw reviews under the input contract (a
  review with a user record has its state; a kept review has its id, a login in its user
  record and a \<^verbatim>\<open>submitted_at\<close> the parser accepts) and a timeline of aware timestamps of
  fixed offset, \<open>merge_reviews\<close> raises nothing. A review without a user is skipped and so
  is a \<^verbatim>\<open>PENDING\<close> one, both without a log entry; a review with a user and a state outside
  the five known ones is skipped with one \<^verbatim>\<open>unknown review state\<close> log entry. The remaining
  reviews each add exactly one event, in order: its kind is the \<^verbatim>\<open>review_*\<close> kind of the
  state, its \<^verbatim>\<open>commit_id\<close> is \<^verbatim>\<open>None\<close> when the raw record has none, its timestamp is forced
  to UTC. The new timeline is the old one followed by these events, stably sorted.
\<close>

theorem merge_reviews_skips_and_keeps:
  assumes "list_all (review_ok strip_time_safely) reviews"
    and "list_all fixed_created_at (hw_history self)"
  shows "list_all2 (event_of_review strip_time_safely) (filter kept reviews)
           (review_events strip_time_safely reviews)
       \<and> merge_reviews strip_time_safely reviews self
           = (None,
              self\<lparr>hw_history :=
                     sort_key instant_of
                       (hw_history self @ review_events strip_time_safely reviews)\<rparr>,
              map unknown_message (filter unknown_state reviews))"
  using review_events_of_kept [OF assms(1)] merge_reviews_fixed [OF assms] by simp

theorem merge_reviews_skips_and_keeps_witness:
  "list_all (review_ok sample_strip_time)
     [review NoUser ''APPROVED'' ''bad'', review ann ''PENDING'' ''bad'',
      review ann ''WEIRD'' ''bad'', review ann ''APPROVED'' ''12'']
   \<and> list_all fixed_created_at (hw_history (wrapper [] [comment ''bob'' 5 ''hi'']))
   \<and> merge_reviews sample_strip_time
       [review NoUser ''APPROVED'' ''bad'', review ann ''PENDING'' ''bad'',
        review ann ''WEIRD'' ''bad'', review ann ''APPROVED'' ''12'']
       (wrapper [] [comment ''bob'' 5 ''hi''])
     = (None,
        wrapper []
          [[(''event'', PStr ''review_approved''), (''id'', PNum 7), (''actor'', PStr ''ann''),
            (''created_at'', PDate (DT 2 (Some 0))), (''commit_id'', PNone),
            (''body'', PNone)],
           comment ''bob'' 5 ''hi''],
        [''unknown review state WEIRD''])"
  using merge_reviews_skips_and_keeps [of sample_strip_time
       "[review NoUser ''APPROVED'' ''bad'', review ann ''PENDING'' ''bad'',
        review ann ''WEIRD'' ''bad'', review ann ''APPROVED'' ''12'']"
       "wrapper [] [comment ''bob'' 5 ''hi'']"]
  by (simp add: review_ok_def kept_def review_def ann_def sample_strip_time_def wrapper_def
      comment_def fixed_created_at_def review_events_def kept_event_def
      review_state_branch_def review_event_def unknown_state_def unknown_message_def
      instant_of_def created_at_of_def)

text \<open>
  The claim as worded has \<open>merge_reviews\<close> never raise on review content. A review in
  a kept state whose user record has no \<^verbatim>\<open>login\<close> raises KeyError, whatever the parser
  does; and a review in a kept state whose \<^verbatim>\<open>submitted_at\<close> the parser refuses raises the
  parser's error, after the event of the review before it was appended: the timeline is
  left with that event at its end, unsorted.
\<close>

theorem merge_reviews_raises_counterexample:
  "merge_reviews (\<lambda>t. Inr (DT 0 None)) [review (UserRecord None) ''APPROVED'' ''12'']
     (wrapper [] [comment ''bob'' 5 ''hi''])
     = (Some KeyError, wrapper [] [comment ''bob'' 5 ''hi''], [])
   \<and> merge_reviews sample_strip_time
       [review ann ''APPROVED'' ''12'', review ann ''APPROVED'' ''bad'']
       (wrapper [] [comment ''bob'' 5 ''hi''])
     = (Some ParseError,
        wrapper []
          [comment ''bob'' 5 ''hi'',
           [(''event'', PStr ''review_approved''), (''id'', PNum 7), (''actor'', PStr ''ann''),
            (''created_at'', PDate (DT 2 (Some 0))), (''commit_id'', PNone),
            (''body'', PNone)]],
        [])"
  by (simp add: merge_reviews_def review_def ann_def sample_strip_time_def wrapper_def
      comment_def review_state_branch_def review_event_def)













subsection \<open>get_boilerplate_comments\<close>

lemma boilerplate_name_ok:
  "name_extractable e \<Longrightarrow> map_of e ''body'' = Some (PStr b) \<Longrightarrow> \<exists>bp. boilerplate_name b = Inr bp"
  by (auto simp: name_extractable_def boilerplate_name_def split: list.splits)

lemma boilerplate_name_fails:
  "\<not> name_extractable e \<Longrightarrow> map_of e ''body'' = Some (PStr b) \<Longrightarrow>
   boilerplate_name b = Inl IndexError"
  by (auto simp: name_extractable_def boilerplate_name_def split: list.splits)

lemma boilerplate_entry_ok:
  "has_created_at e \<Longrightarrow> \<exists>entry. boilerplate_entry dates content e body bp = Inr entry"
  by (auto simp: has_created_at_def boilerplate_entry_def getitem_def split: option.splits)

lemma contains_marker_nonempty: "contains marker b \<Longrightarrow> b \<noteq> []"
  by (auto simp: marker_def)

lemma boilerplate_loop_outcome:
  assumes "list_all boilerplate_shaped evs"
  shows "if list_all (\<lambda>e. marker_body e \<longrightarrow> name_extractable e) evs
         then (\<exists>entries. boilerplate_loop dates content evs = Inr entries)
         else boilerplate_loop dates content evs = Inl IndexError"
  using assms
proof (induction evs)
  case Nil
  then show ?case by simp
next
  case (Cons e evs)
  then have sh: "has_created_at e" "body_text_or_none e"
    and IH: "if list_all (\<lambda>e. marker_body e \<longrightarrow> name_extractable e) evs
         then (\<exists>entries. boilerplate_loop dates content evs = Inr entries)
         else boilerplate_loop dates content evs = Inl IndexError"
    by (simp_all add: boilerplate_shaped_def)
  show ?case
  proof (cases "marker_body e")
    case False
    then have "boilerplate_loop dates content (e # evs) = boilerplate_loop dates content evs"
      using sh(2)
      by (auto simp: marker_body_def body_text_or_none_def split: option.splits pyval.splits)
    then show ?thesis using False IH by simp
  next
    case True
    then obtain b where b: "map_of e ''body'' = Some (PStr b)" "contains marker b"
      by (auto simp: marker_body_def split: option.splits pyval.splits)
    have ne: "b \<noteq> []" using b(2) by (rule contains_marker_nonempty)
    show ?thesis
    proof (cases "name_extractable e")
      case False
      then show ?thesis using True b ne boilerplate_name_fails [OF False b(1)] by simp
    next
      case ex: True
      from boilerplate_name_ok [OF ex b(1)] obtain bp where bp: "boilerplate_name b = Inr bp" ..
      from boilerplate_entry_ok [OF sh(1)] obtain entry
        where en: "boilerplate_entry dates content e (PStr b) bp = Inr entry" by blast
      show ?thesis
      proof (cases "list_all (\<lambda>e. marker_body e \<longrightarrow> name_extractable e) evs")
        case yes: True
        with IH obtain entries where "boilerplate_loop dates content evs = Inr entries" by auto
        then show ?thesis using True ex b ne bp en yes by simp
      next
        case no: False
        with IH have "boilerplate_loop dates content evs = Inl IndexError" by simp
        then show ?thesis using True ex b ne bp en no by simp
      qed
    qed
  qed
qed

lemma boilerplate_shaped_actor_shaped:
  "list_all boilerplate_shaped h \<Longrightarrow> list_all (actor_shaped ''commented'') h"
  by (simp add: list_all_iff boilerplate_shaped_def)

text \<open>
  Claim C10, as the code has it: on a timeline of well-shaped events,
  \<open>get_boilerplate_comments\<close> returns a result exactly when, among the first 999
  comments by the bots, every body that contains the marker has a first non-blank marker
  line with at least three whitespace-delimited tokens; otherwise the subscript is out of
  range and the operation fails with IndexError.
\<close>

theorem get_boilerplate_comments_fails_on_short_line:
  assumes "list_all boilerplate_shaped (hw_history self)"
  shows "case get_boilerplate_comments bot_names dates content self of
           Inr entries \<Rightarrow>
             list_all (\<lambda>e. marker_body e \<longrightarrow> name_extractable e)
               (take 999 (bot_comments bot_names (hw_history self)))
         | Inl err \<Rightarrow>
             err = IndexError
             \<and> \<not> list_all (\<lambda>e. marker_body e \<longrightarrow> name_extractable e)
                   (take 999 (bot_comments bot_names (hw_history self)))"
proof -
  let ?sel = "take 999 (bot_comments bot_names (hw_history self))"
  have f: "find_events_by_actor (PStr ''commented'') (Seq (map PStr bot_names)) 999 self = Inr ?sel"
    using find_events_by_actor_seq [OF boilerplate_shaped_actor_shaped [OF assms],
        of 999 "map PStr bot_names"]
    by (simp add: bot_comments_def)
  have "list_all boilerplate_shaped ?sel"
    using assms by (auto simp: list_all_iff bot_comments_def dest: in_set_takeD)
  from boilerplate_loop_outcome [OF this, of dates content] f show ?thesis
    by (auto simp: get_boilerplate_comments_def split: if_splits)
qed


lemma named_boilerplate_facts:
  "map_of named_boilerplate ''body'' = Some (PStr ''<!--- boilerplate: needs_info --->'')"
  "contains marker ''<!--- boilerplate: needs_info --->''"
  "boilerplate_name ''<!--- boilerplate: needs_info --->'' = Inr ''needs_info''"
  by (simp_all add: named_boilerplate_def comment_def marker_def boilerplate_name_def
      marker_lines_def split_lines_def strip_def isspace_def split_ws_def)

lemma short_boilerplate_facts:
  "kind_is ''commented'' short_boilerplate"
  "actor_among [PStr ''ansibot''] short_boilerplate"
  "marker_body short_boilerplate"
  "\<not> name_extractable short_boilerplate"
  by (simp_all add: short_boilerplate_def comment_def kind_is_def actor_among_def marker_body_def
      name_extractable_def marker_def marker_lines_def split_lines_def strip_def isspace_def
      split_ws_def)

theorem get_boilerplate_comments_fails_on_short_line_witness:
  "list_all boilerplate_shaped (hw_history (wrapper [] [named_boilerplate, short_boilerplate]))
   \<and> get_boilerplate_comments [''ansibot''] False True
       (wrapper [] [named_boilerplate, short_boilerplate]) = Inl IndexError"
proof -
  have sh: "list_all boilerplate_shaped
              (hw_history (wrapper [] [named_boilerplate, short_boilerplate]))"
    by (simp add: wrapper_def named_boilerplate_def short_boilerplate_def comment_def
        boilerplate_shaped_def actor_shaped_def has_created_at_def body_text_or_none_def)
  have sel: "take 999 (bot_comments [''ansibot'']
               (hw_history (wrapper [] [named_boilerplate, short_boilerplate])))
             = [named_boilerplate, short_boilerplate]"
    by (simp add: wrapper_def bot_comments_def named_boilerplate_def short_boilerplate_def
        comment_def kind_is_def actor_among_def)
  have bad: "\<not> list_all (\<lambda>e. marker_body e \<longrightarrow> name_extractable e)
                 [named_boilerplate, short_boilerplate]"
    using short_boilerplate_facts by simp
  from get_boilerplate_comments_fails_on_short_line [OF sh, of "[''ansibot'']" False True]
  have "get_boilerplate_comments [''ansibot''] False True
          (wrapper [] [named_boilerplate, short_boilerplate]) = Inl IndexError"
    unfolding sel using bad by (auto split: sum.splits)
  with sh show ?thesis by simp
qed

text \<open>
  The claim as worded speaks of every bot comment of the timeline. The scan takes the
  first 999 comments by the bots only: after 999 well-formed boilerplate comments, a
  thousandth one whose marker line has two tokens is never read, and the operation
  returns the 999 entries.
\<close>

lemma boilerplate_loop_replicate_named:
  "boilerplate_loop False True (replicate n named_boilerplate)
     = Inr (replicate n (BpRow [PStr ''needs_info'',
                                  PStr ''<!--- boilerplate: needs_info --->'']))"
  by (induction n) (simp_all add: named_boilerplate_facts boilerplate_entry_def del: contains.simps)

theorem get_boilerplate_comments_beyond_limit_counterexample:
  "short_boilerplate \<in> set (hw_history
       (wrapper [] (replicate 999 named_boilerplate @ [short_boilerplate])))
   \<and> kind_is ''commented'' short_boilerplate
   \<and> actor_among [PStr ''ansibot''] short_boilerplate
   \<and> marker_body short_boilerplate
   \<and> \<not> name_extractable short_boilerplate
   \<and> get_boilerplate_comments [''ansibot''] False True
       (wrapper [] (replicate 999 named_boilerplate @ [short_boilerplate]))
     = Inr (replicate 999 (BpRow [PStr ''needs_info'',
                                    PStr ''<!--- boilerplate: needs_info --->'']))"
proof -
  let ?h = "replicate 999 named_boilerplate @ [short_boilerplate]"
  have sh: "list_all (actor_shaped ''commented'') (hw_history (wrapper [] ?h))"
    by (simp add: wrapper_def list_all_iff named_boilerplate_def short_boilerplate_def
        comment_def actor_shaped_def)
  have nb: "kind_is ''commented'' named_boilerplate
            \<and> actor_among [PStr ''ansibot''] named_boilerplate"
    by (simp add: named_boilerplate_def comment_def kind_is_def actor_among_def)
  have "filter (\<lambda>e. kind_is ''commented'' e \<and> actor_among [PStr ''ansibot''] e) ?h = ?h"
    using nb short_boilerplate_facts(1,2) by (simp add: filter_id_conv)
  then have sel: "take 999 (filter (\<lambda>e. kind_is ''commented'' e
                     \<and> actor_among [PStr ''ansibot''] e) (hw_history (wrapper [] ?h)))
                  = replicate 999 named_boilerplate"
    by (simp add: wrapper_def)
  have f: "find_events_by_actor (PStr ''commented'') (Seq (map PStr [''ansibot''])) 999
             (wrapper [] ?h) = Inr (replicate 999 named_boilerplate)"
    using find_events_by_actor_seq [OF sh, of 999 "[PStr ''ansibot'']"] sel by simp
  have "get_boilerplate_comments [''ansibot''] False True (wrapper [] ?h)
     = Inr (replicate 999 (BpRow [PStr ''needs_info'',
                                    PStr ''<!--- boilerplate: needs_info --->'']))"
    using f by (simp add: get_boilerplate_comments_def boilerplate_loop_replicate_named)
  then show ?thesis using short_boilerplate_facts by (simp add: wrapper_def)
qed

end
